theory Spec2Isabelle
  imports Main "HOL-Library.AList"
begin

section \<open>Data model\<close>

text \<open>
  The crossword generator of \<^verbatim>\<open>src/crossword/generate.py\<close>: class
  \<^verbatim>\<open>CrosswordCreator\<close> solves a crossword as a constraint satisfaction problem.

  Python sets and dictionaries are iterated by the program, and the iteration order decides
  which of several tied candidates the search tries first. A set is therefore a list of its
  elements in iteration order, and a dictionary is an association list in insertion order.
  Removing an element from a set keeps the order of the others.
\<close>

datatype error = KeyError | IndexError | ValueError

datatype direction = ACROSS | DOWN

text \<open>
  Modelled from the spec: class \<^verbatim>\<open>Variable\<close> of \<^verbatim>\<open>crossword.py\<close>, which
  is not among the sources. A slot is its origin cell (row, column), its orientation and its
  length; \<^verbatim>\<open>generate.py\<close> reads the fields \<^verbatim>\<open>i\<close>, \<^verbatim>\<open>j\<close>,
  \<^verbatim>\<open>direction\<close> and \<^verbatim>\<open>length\<close>.
\<close>

record variable =
  var_i :: nat
  var_j :: nat
  var_direction :: direction
  var_length :: nat

text \<open>
  Modelled from the spec: the part of class \<^verbatim>\<open>Crossword\<close> that the solver reads.
  \<^verbatim>\<open>variables\<close> and \<^verbatim>\<open>words\<close> are sets (lists in iteration order),
  \<^verbatim>\<open>overlaps\<close> is a dictionary keyed by ordered pairs of variables whose values are
  \<^verbatim>\<open>None\<close> or a pair of offsets. A key absent from the dictionary is \<open>None\<close> here,
  an entry \<^verbatim>\<open>None\<close> is \<open>Some None\<close>.
\<close>

record crossword =
  variables :: "variable list"
  words :: "string list"
  overlaps :: "variable \<times> variable \<Rightarrow> (nat \<times> nat) option option"

type_synonym domains = "(variable \<times> string list) list"

type_synonym assignment = "(variable \<times> string) list"

text \<open>
  The object \<^verbatim>\<open>self\<close>: the puzzle and the mutable domain store. The field
  \<open>backtrack_calls\<close> is a ghost counter, not a field of the source class: it counts how
  often \<^verbatim>\<open>backtrack\<close> has been entered, so that statements about which calls a method
  makes can be written down.
\<close>

record creator =
  crossword :: crossword
  domains :: domains
  backtrack_calls :: nat

text \<open>\<^verbatim>\<open>__init__\<close>: every variable starts with a copy of the whole word list.\<close>

definition init :: "crossword \<Rightarrow> creator" where
  "init c = \<lparr>crossword = c, domains = map (\<lambda>var. (var, words c)) (variables c),
     backtrack_calls = 0\<rparr>"

subsection \<open>Dictionary and sequence primitives of Python\<close>

text \<open>\<^verbatim>\<open>self.domains[x]\<close>: a missing key raises \<^verbatim>\<open>KeyError\<close>.\<close>

definition domain_of :: "creator \<Rightarrow> variable \<Rightarrow> error + string list" where
  "domain_of s x = (case map_of (domains s) x of None \<Rightarrow> Inl KeyError | Some ws \<Rightarrow> Inr ws)"

text \<open>\<^verbatim>\<open>self.crossword.overlaps[x, y]\<close>.\<close>

definition overlap_of :: "creator \<Rightarrow> variable \<Rightarrow> variable \<Rightarrow> error + (nat \<times> nat) option" where
  "overlap_of s x y =
     (case overlaps (crossword s) (x, y) of None \<Rightarrow> Inl KeyError | Some ov \<Rightarrow> Inr ov)"

text \<open>\<^verbatim>\<open>word[k]\<close> for an offset \<open>k \<ge> 0\<close>: out of range raises \<^verbatim>\<open>IndexError\<close>.\<close>

definition char_at :: "string \<Rightarrow> nat \<Rightarrow> error + char" where
  "char_at w k = (if k < length w then Inr (w ! k) else Inl IndexError)"

text \<open>\<^verbatim>\<open>set.remove(word)\<close>: an absent element raises \<^verbatim>\<open>KeyError\<close>.\<close>

definition set_remove :: "string \<Rightarrow> string list \<Rightarrow> error + string list" where
  "set_remove w ws = (if w \<in> set ws then Inr (removeAll w ws) else Inl KeyError)"

text \<open>
  The loop \<^verbatim>\<open>for word in words_to_remove: self.domains[var].remove(word)\<close>, on the
  domain of \<open>var\<close>.
\<close>

fun remove_words :: "string list \<Rightarrow> string list \<Rightarrow> error + string list" where
  "remove_words [] ws = Inr ws"
| "remove_words (w # rem) ws =
     (case set_remove w ws of Inl e \<Rightarrow> Inl e | Inr ws' \<Rightarrow> remove_words rem ws')"

text \<open>
  Modelled from the spec: \<^verbatim>\<open>Crossword.neighbors\<close>, which is not among the sources:
  the variables other than \<open>x\<close> that have a defined overlap with \<open>x\<close>.
\<close>

definition has_overlap :: "crossword \<Rightarrow> variable \<Rightarrow> variable \<Rightarrow> bool" where
  "has_overlap c v x = (case overlaps c (v, x) of Some (Some ij) \<Rightarrow> True | _ \<Rightarrow> False)"

definition neighbors :: "crossword \<Rightarrow> variable \<Rightarrow> variable list" where
  "neighbors c x = filter (\<lambda>v. v \<noteq> x \<and> has_overlap c v x) (variables c)"

section \<open>Node consistency\<close>

text \<open>
  \<^verbatim>\<open>enforce_node_consistency\<close>: for every key of \<^verbatim>\<open>self.domains\<close>, collect the
  words whose length is not the variable's (a set, so each word once) and remove them.
\<close>

definition words_of_wrong_length :: "variable \<Rightarrow> string list \<Rightarrow> string list" where
  "words_of_wrong_length var ws = remdups (filter (\<lambda>word. length word \<noteq> var_length var) ws)"

fun enforce_domains :: "domains \<Rightarrow> error + domains" where
  "enforce_domains [] = Inr []"
| "enforce_domains ((var, ws) # rest) =
     (case remove_words (words_of_wrong_length var ws) ws of
        Inl e \<Rightarrow> Inl e
      | Inr ws' \<Rightarrow>
          (case enforce_domains rest of
             Inl e \<Rightarrow> Inl e
           | Inr rest' \<Rightarrow> Inr ((var, ws') # rest')))"

definition enforce_node_consistency :: "creator \<Rightarrow> error + creator" where
  "enforce_node_consistency s =
     (case enforce_domains (domains s) of
        Inl e \<Rightarrow> Inl e
      | Inr d \<Rightarrow> Inr (s\<lparr>domains := d\<rparr>))"

section \<open>Arc consistency\<close>

text \<open>
  The inner loop of \<^verbatim>\<open>revise\<close>: look through the domain of \<open>y\<close> for a word that
  agrees with \<open>word_x\<close> at the overlap, and stop at the first one (\<^verbatim>\<open>break\<close>).
\<close>

fun consistent_found :: "string \<Rightarrow> nat \<Rightarrow> nat \<Rightarrow> string list \<Rightarrow> error + bool" where
  "consistent_found word_x i j [] = Inr False"
| "consistent_found word_x i j (word_y # rest) =
     (case char_at word_x i of
        Inl e \<Rightarrow> Inl e
      | Inr a \<Rightarrow>
          (case char_at word_y j of
             Inl e \<Rightarrow> Inl e
           | Inr b \<Rightarrow> if a = b then Inr True else consistent_found word_x i j rest))"

text \<open>
  The outer loop of \<^verbatim>\<open>revise\<close> over the domain of \<open>x\<close>; \<^verbatim>\<open>self.domains[y]\<close>
  is looked up for each word of \<open>x\<close>.
\<close>

fun words_to_remove :: "creator \<Rightarrow> variable \<Rightarrow> nat \<Rightarrow> nat \<Rightarrow> string list \<Rightarrow> error + string list" where
  "words_to_remove s y i j [] = Inr []"
| "words_to_remove s y i j (word_x # rest) =
     (case domain_of s y of
        Inl e \<Rightarrow> Inl e
      | Inr dy \<Rightarrow>
          (case consistent_found word_x i j dy of
             Inl e \<Rightarrow> Inl e
           | Inr found \<Rightarrow>
               (case words_to_remove s y i j rest of
                  Inl e \<Rightarrow> Inl e
                | Inr others \<Rightarrow> Inr (if found then others else word_x # others))))"

text \<open>
  \<^verbatim>\<open>revise(x, y)\<close> returns the flag \<^verbatim>\<open>revised\<close> and the updated object. The set
  \<^verbatim>\<open>self.domains[x]\<close> is changed in place, so the entry of \<open>x\<close> keeps its position
  in the dictionary.
\<close>

definition revise :: "creator \<Rightarrow> variable \<Rightarrow> variable \<Rightarrow> error + bool \<times> creator" where
  "revise s x y =
     (case overlap_of s x y of
        Inl e \<Rightarrow> Inl e
      | Inr None \<Rightarrow> Inr (False, s)
      | Inr (Some (i, j)) \<Rightarrow>
          (case domain_of s x of
             Inl e \<Rightarrow> Inl e
           | Inr dx \<Rightarrow>
               (case words_to_remove s y i j dx of
                  Inl e \<Rightarrow> Inl e
                | Inr to_remove \<Rightarrow>
                    (case remove_words (remdups to_remove) dx of
                       Inl e \<Rightarrow> Inl e
                     | Inr dx' \<Rightarrow>
                         Inr (to_remove \<noteq> [], s\<lparr>domains := AList.update x dx' (domains s)\<rparr>)))))"

text \<open>
  The default worklist of \<^verbatim>\<open>ac3\<close>: every ordered pair of distinct variables whose
  overlap is not \<^verbatim>\<open>None\<close>, in the order of the two nested loops.
\<close>

fun arcs_from :: "creator \<Rightarrow> variable \<Rightarrow> variable list \<Rightarrow> error + (variable \<times> variable) list" where
  "arcs_from s v1 [] = Inr []"
| "arcs_from s v1 (v2 # vs) =
     (if v1 \<noteq> v2 then
        (case overlap_of s v1 v2 of
           Inl e \<Rightarrow> Inl e
         | Inr ov \<Rightarrow>
             (case arcs_from s v1 vs of
                Inl e \<Rightarrow> Inl e
              | Inr others \<Rightarrow> Inr (if ov \<noteq> None then (v1, v2) # others else others)))
      else arcs_from s v1 vs)"

fun all_arcs :: "creator \<Rightarrow> variable list \<Rightarrow> error + (variable \<times> variable) list" where
  "all_arcs s [] = Inr []"
| "all_arcs s (v1 # vs) =
     (case arcs_from s v1 (variables (crossword s)) of
        Inl e \<Rightarrow> Inl e
      | Inr arcs1 \<Rightarrow>
          (case all_arcs s vs of
             Inl e \<Rightarrow> Inl e
           | Inr others \<Rightarrow> Inr (arcs1 @ others)))"

text \<open>
  The \<^verbatim>\<open>while queue\<close> loop of \<^verbatim>\<open>ac3\<close>. The loop is not bounded by its text, so the
  model is a partial function: \<open>None\<close> stands for a loop that never returns.
\<close>

partial_function (option) ac3_loop ::
  "creator \<Rightarrow> (variable \<times> variable) list \<Rightarrow> (error + bool \<times> creator) option" where
  "ac3_loop s queue =
     (case queue of
        [] \<Rightarrow> Some (Inr (True, s))
      | (x, y) # rest \<Rightarrow>
          (case revise s x y of
             Inl e \<Rightarrow> Some (Inl e)
           | Inr (revised, s') \<Rightarrow>
               if revised then
                 (case domain_of s' x of
                    Inl e \<Rightarrow> Some (Inl e)
                  | Inr dx \<Rightarrow>
                      if length dx = 0 then Some (Inr (False, s'))
                      else ac3_loop s'
                        (rest @ map (\<lambda>k. (k, x)) (filter (\<lambda>k. k \<noteq> y) (neighbors (crossword s') x))))
               else ac3_loop s' rest))"

declare ac3_loop.simps [code]

definition ac3 ::
  "creator \<Rightarrow> (variable \<times> variable) list option \<Rightarrow> (error + bool \<times> creator) option" where
  "ac3 s arcs =
     (case arcs of
        None \<Rightarrow>
          (case all_arcs s (variables (crossword s)) of
             Inl e \<Rightarrow> Some (Inl e)
           | Inr queue \<Rightarrow> ac3_loop s queue)
      | Some queue \<Rightarrow> ac3_loop s queue)"

section \<open>Backtracking search\<close>

text \<open>\<^verbatim>\<open>assignment_complete\<close> compares the sizes of the dictionary and of the variable set.\<close>

definition assignment_complete :: "creator \<Rightarrow> assignment \<Rightarrow> bool" where
  "assignment_complete s a = (length a = length (variables (crossword s)))"

text \<open>The two nested loops of \<^verbatim>\<open>consistent\<close> over \<^verbatim>\<open>assignment.items()\<close>.\<close>

fun no_conflict :: "creator \<Rightarrow> variable \<Rightarrow> string \<Rightarrow> assignment \<Rightarrow> error + bool" where
  "no_conflict s var1 word1 [] = Inr True"
| "no_conflict s var1 word1 ((var2, word2) # rest) =
     (if var1 \<noteq> var2 then
        (case overlap_of s var1 var2 of
           Inl e \<Rightarrow> Inl e
         | Inr None \<Rightarrow> no_conflict s var1 word1 rest
         | Inr (Some (i, j)) \<Rightarrow>
             (case char_at word1 i of
                Inl e \<Rightarrow> Inl e
              | Inr a \<Rightarrow>
                  (case char_at word2 j of
                     Inl e \<Rightarrow> Inl e
                   | Inr b \<Rightarrow> if a \<noteq> b then Inr False else no_conflict s var1 word1 rest)))
      else no_conflict s var1 word1 rest)"

fun no_conflicts :: "creator \<Rightarrow> assignment \<Rightarrow> assignment \<Rightarrow> error + bool" where
  "no_conflicts s a [] = Inr True"
| "no_conflicts s a ((var1, word1) # rest) =
     (case no_conflict s var1 word1 a of
        Inl e \<Rightarrow> Inl e
      | Inr ok \<Rightarrow> if ok then no_conflicts s a rest else Inr False)"

definition consistent :: "creator \<Rightarrow> assignment \<Rightarrow> error + bool" where
  "consistent s a =
     (if length (map snd a) \<noteq> length (remdups (map snd a)) then Inr False
      else if \<not> list_all (\<lambda>(var, word). length word = var_length var) a then Inr False
      else no_conflicts s a a)"

text \<open>A list comprehension or \<^verbatim>\<open>key=\<close> function that may raise: the first error wins.\<close>

fun map_err :: "('a \<Rightarrow> error + 'b) \<Rightarrow> 'a list \<Rightarrow> error + 'b list" where
  "map_err f [] = Inr []"
| "map_err f (x # xs) =
     (case f x of
        Inl e \<Rightarrow> Inl e
      | Inr y \<Rightarrow> (case map_err f xs of Inl e \<Rightarrow> Inl e | Inr ys \<Rightarrow> Inr (y # ys)))"

text \<open>
  \<^verbatim>\<open>count_eliminated_values\<close> of \<^verbatim>\<open>order_domain_values\<close>: the innermost loop
  counts the words of one neighbour that disagree with \<open>word\<close> at the overlap.
\<close>

fun count_disagreeing :: "string \<Rightarrow> nat \<Rightarrow> nat \<Rightarrow> string list \<Rightarrow> error + nat" where
  "count_disagreeing word i j [] = Inr 0"
| "count_disagreeing word i j (neighbor_word # rest) =
     (case char_at word i of
        Inl e \<Rightarrow> Inl e
      | Inr a \<Rightarrow>
          (case char_at neighbor_word j of
             Inl e \<Rightarrow> Inl e
           | Inr b \<Rightarrow>
               (case count_disagreeing word i j rest of
                  Inl e \<Rightarrow> Inl e
                | Inr n \<Rightarrow> Inr (if a \<noteq> b then Suc n else n))))"

fun count_eliminated_values ::
  "creator \<Rightarrow> variable \<Rightarrow> assignment \<Rightarrow> string \<Rightarrow> variable list \<Rightarrow> error + nat" where
  "count_eliminated_values s var a word [] = Inr 0"
| "count_eliminated_values s var a word (neighbor # rest) =
     (if map_of a neighbor = None then
        (case overlap_of s var neighbor of
           Inl e \<Rightarrow> Inl e
         | Inr None \<Rightarrow> count_eliminated_values s var a word rest
         | Inr (Some (i, j)) \<Rightarrow>
             (case domain_of s neighbor of
                Inl e \<Rightarrow> Inl e
              | Inr nd \<Rightarrow>
                  (case count_disagreeing word i j nd of
                     Inl e \<Rightarrow> Inl e
                   | Inr n \<Rightarrow>
                       (case count_eliminated_values s var a word rest of
                          Inl e \<Rightarrow> Inl e
                        | Inr m \<Rightarrow> Inr (n + m)))))
      else count_eliminated_values s var a word rest)"

text \<open>
  \<^verbatim>\<open>order_domain_values\<close>: \<^verbatim>\<open>sorted\<close> computes the key of every word, then sorts
  stably, as \<^const>\<open>sort_key\<close> does.
\<close>

definition order_domain_values :: "creator \<Rightarrow> variable \<Rightarrow> assignment \<Rightarrow> error + string list" where
  "order_domain_values s var a =
     (case domain_of s var of
        Inl e \<Rightarrow> Inl e
      | Inr ws \<Rightarrow>
          (case map_err (\<lambda>word.
                  case count_eliminated_values s var a word (neighbors (crossword s) var) of
                    Inl e \<Rightarrow> Inl e
                  | Inr n \<Rightarrow> Inr (n, word)) ws of
             Inl e \<Rightarrow> Inl e
           | Inr keyed \<Rightarrow> Inr (map snd (sort_key fst keyed))))"

text \<open>
  \<^verbatim>\<open>select_unassigned_variable\<close>: the key of a variable is the pair
  \<^verbatim>\<open>(remaining_values, -degree)\<close>; Python compares tuples lexicographically, and
  \<^verbatim>\<open>min\<close> keeps the first element whose key no later key is strictly below. On an empty
  sequence \<^verbatim>\<open>min\<close> raises \<^verbatim>\<open>ValueError\<close>.
\<close>

definition sort_key_of :: "creator \<Rightarrow> variable \<Rightarrow> error + (nat \<times> int) \<times> variable" where
  "sort_key_of s var =
     (case domain_of s var of
        Inl e \<Rightarrow> Inl e
      | Inr ws \<Rightarrow> Inr ((length ws, - int (length (neighbors (crossword s) var))), var))"

definition key_less :: "nat \<times> int \<Rightarrow> nat \<times> int \<Rightarrow> bool" where
  "key_less k1 k2 = (fst k1 < fst k2 \<or> (fst k1 = fst k2 \<and> snd k1 < snd k2))"

fun min_from :: "(nat \<times> int) \<times> variable \<Rightarrow> ((nat \<times> int) \<times> variable) list \<Rightarrow> variable" where
  "min_from best [] = snd best"
| "min_from best (x # xs) = min_from (if key_less (fst x) (fst best) then x else best) xs"

definition select_unassigned_variable :: "creator \<Rightarrow> assignment \<Rightarrow> error + variable" where
  "select_unassigned_variable s a =
     (let unassigned_vars = filter (\<lambda>var. map_of a var = None) (variables (crossword s)) in
      case map_err (sort_key_of s) unassigned_vars of
        Inl e \<Rightarrow> Inl e
      | Inr [] \<Rightarrow> Inl ValueError
      | Inr (first # others) \<Rightarrow> Inr (min_from first others))"

text \<open>\<^verbatim>\<open>del assignment[var]\<close>: a missing key raises \<^verbatim>\<open>KeyError\<close>.\<close>

definition dict_del :: "assignment \<Rightarrow> variable \<Rightarrow> error + assignment" where
  "dict_del a var = (if map_of a var = None then Inl KeyError else Inr (AList.delete var a))"

text \<open>
  \<^verbatim>\<open>backtrack\<close> and its loop over the ordered values (\<open>try_values\<close>). The dictionary
  \<^verbatim>\<open>assignment\<close> is mutated in place and shared by all recursive calls, so each call
  returns, beside its result, the object and the dictionary as it leaves them. The result
  of a successful call is the dictionary itself.
\<close>

function backtrack :: "creator \<Rightarrow> assignment \<Rightarrow> error + (assignment option \<times> creator \<times> assignment)"
  and try_values :: "creator \<Rightarrow> assignment \<Rightarrow> variable \<Rightarrow> string list \<Rightarrow>
     error + (assignment option \<times> creator \<times> assignment)"
where
  "backtrack s a =
     (let s1 = s\<lparr>backtrack_calls := Suc (backtrack_calls s)\<rparr> in
      if assignment_complete s1 a then Inr (Some a, s1, a)
      else
        (case select_unassigned_variable s1 a of
           Inl e \<Rightarrow> Inl e
         | Inr var \<Rightarrow>
             (case order_domain_values s1 var a of
                Inl e \<Rightarrow> Inl e
              | Inr vals \<Rightarrow> try_values s1 a var vals)))"
| "try_values s a var [] = Inr (None, s, a)"
| "try_values s a var (val # rest) =
     (let a1 = AList.update var val a in
      case consistent s a1 of
        Inl e \<Rightarrow> Inl e
      | Inr ok \<Rightarrow>
          if ok then
            (case backtrack s a1 of
               Inl e \<Rightarrow> Inl e
             | Inr (result, s2, a2) \<Rightarrow>
                 (case result of
                    Some r \<Rightarrow> Inr (Some r, s2, a2)
                  | None \<Rightarrow>
                      (case dict_del a2 var of
                         Inl e \<Rightarrow> Inl e
                       | Inr a3 \<Rightarrow> try_values s2 a3 var rest)))
          else
            (case dict_del a1 var of
               Inl e \<Rightarrow> Inl e
             | Inr a3 \<Rightarrow> try_values s a3 var rest))"
  by pat_completeness auto

text \<open>
  The recursion is nested: the loop continues with the dictionary the recursive call left
  behind. Its termination rests on what a failed call leaves behind, proved first on the
  domain of the function.
\<close>

lemma map_err_sort_key_of:
  "map_err (sort_key_of s) xs = Inr ys \<Longrightarrow> map snd ys = xs"
proof (induction xs arbitrary: ys)
  case Nil
  then show ?case by simp
next
  case (Cons x xs)
  then show ?case
    by (auto simp: sort_key_of_def split: sum.splits)
qed

lemma min_from_in: "min_from best xs \<in> snd ` set (best # xs)"
  by (induction xs arbitrary: best) auto

lemma select_unassigned_variable_in:
  assumes "select_unassigned_variable s a = Inr var"
  shows "var \<in> set (variables (crossword s)) \<and> map_of a var = None"
proof -
  let ?us = "filter (\<lambda>var. map_of a var = None) (variables (crossword s))"
  from assms obtain first others where
    keys: "map_err (sort_key_of s) ?us = Inr (first # others)" and
    var: "var = min_from first others"
    by (auto simp: select_unassigned_variable_def Let_def split: sum.splits list.splits)
  have "map snd (first # others) = ?us"
    using keys by (rule map_err_sort_key_of)
  then have "snd ` set (first # others) = set ?us"
    by (metis set_map)
  with min_from_in [of first others] var have "var \<in> set ?us"
    by auto
  then show ?thesis by simp
qed

lemma delete_fresh_update:
  "map_of a var = None \<Longrightarrow> AList.delete var (AList.update var val a) = a"
  by (simp add: delete_update_same map_of_eq_None_iff)

lemma backtrack_frame_partial:
  "backtrack_try_values_dom (Inl (s, a)) \<Longrightarrow>
     (\<forall>res s2 a2. backtrack s a = Inr (res, s2, a2) \<longrightarrow>
        crossword s2 = crossword s \<and> domains s2 = domains s \<and> (res = None \<longrightarrow> a2 = a))"
  "backtrack_try_values_dom (Inr (s', a', var, vals)) \<Longrightarrow>
     (map_of a' var = None \<longrightarrow>
       (\<forall>res s2 a2. try_values s' a' var vals = Inr (res, s2, a2) \<longrightarrow>
          crossword s2 = crossword s' \<and> domains s2 = domains s' \<and> (res = None \<longrightarrow> a2 = a')))"
proof (induction s a and s' a' var vals rule: backtrack_try_values.pinduct)
  case (1 s a)
  show ?case
  proof (intro allI impI)
    fix res s2 a2
    assume eq: "backtrack s a = Inr (res, s2, a2)"
    let ?s1 = "s\<lparr>backtrack_calls := Suc (backtrack_calls s)\<rparr>"
    show "crossword s2 = crossword s \<and> domains s2 = domains s \<and> (res = None \<longrightarrow> a2 = a)"
    proof (cases "assignment_complete ?s1 a")
      case True
      with eq "1.hyps" show ?thesis
        by (auto simp: backtrack.psimps Let_def)
    next
      case False
      with eq "1.hyps" obtain v vs where
        sel: "select_unassigned_variable ?s1 a = Inr v" and
        ord: "order_domain_values ?s1 v a = Inr vs" and
        tv: "try_values ?s1 a v vs = Inr (res, s2, a2)"
        by (auto simp: backtrack.psimps Let_def split: sum.splits)
      have "map_of a v = None"
        using select_unassigned_variable_in [OF sel] by simp
      with "1.IH" [OF refl False sel ord] tv show ?thesis
        by simp
    qed
  qed
next
  case (2 s a var)
  then show ?case by (simp add: try_values.psimps)
next
  case (3 s a var val rest)
  show ?case
  proof (intro allI impI)
    fix res s2 a2
    assume fresh: "map_of a var = None"
    assume eq: "try_values s a var (val # rest) = Inr (res, s2, a2)"
    let ?a1 = "AList.update var val a"
    have del: "dict_del ?a1 var = Inr a"
      using fresh by (simp add: dict_del_def update_conv' delete_fresh_update)
    from eq "3.hyps" obtain ok where ok: "consistent s ?a1 = Inr ok"
      by (auto simp: try_values.psimps Let_def split: sum.splits)
    show "crossword s2 = crossword s \<and> domains s2 = domains s \<and> (res = None \<longrightarrow> a2 = a)"
    proof (cases ok)
      case False
      with eq "3.hyps" ok del have "try_values s a var rest = Inr (res, s2, a2)"
        by (simp add: try_values.psimps Let_def)
      with "3.IH"(3) [OF refl ok False del] fresh show ?thesis
        by simp
    next
      case True
      from eq "3.hyps" ok True obtain r sb ab where
        bt: "backtrack s ?a1 = Inr (r, sb, ab)"
        by (auto simp: try_values.psimps Let_def split: sum.splits)
      from "3.IH"(1) [OF refl ok True] bt have
        frame: "crossword sb = crossword s" "domains sb = domains s" "r = None \<longrightarrow> ab = ?a1"
        by auto
      show ?thesis
      proof (cases r)
        case (Some r')
        with eq "3.hyps" ok True bt frame show ?thesis
          by (auto simp: try_values.psimps Let_def)
      next
        case None
        with frame have ab: "ab = ?a1" by simp
        from eq "3.hyps" ok True bt None ab del
        have "try_values sb a var rest = Inr (res, s2, a2)"
          by (simp add: try_values.psimps Let_def)
        with "3.IH"(2) [OF refl ok True bt refl refl None] ab del fresh frame
        show ?thesis
          by simp
      qed
    qed
  qed
qed


definition unassigned_besides :: "creator \<Rightarrow> assignment \<Rightarrow> variable option \<Rightarrow> nat" where
  "unassigned_besides s a skip =
     length (filter (\<lambda>v. Some v \<noteq> skip \<and> map_of a v = None) (variables (crossword s)))"

lemma unassigned_besides_less:
  assumes "var \<in> set (variables (crossword s))" "map_of a var = None"
  shows "unassigned_besides s a (Some var) < unassigned_besides s a None"
proof -
  let ?P = "\<lambda>v. map_of a v = None"
  let ?xs = "variables (crossword s)"
  have "var \<in> set (filter ?P ?xs)"
    using assms by simp
  then have "length (filter (\<lambda>v. v \<noteq> var) (filter ?P ?xs)) < length (filter ?P ?xs)"
    by (rule length_filter_less) simp
  then show ?thesis
    by (simp add: unassigned_besides_def conj_commute)
qed

lemma unassigned_besides_update:
  "unassigned_besides s (AList.update var val a) None = unassigned_besides s a (Some var)"
  unfolding unassigned_besides_def
  by (rule arg_cong [where f = length], rule filter_cong) (auto simp: update_conv')

lemma unassigned_besides_delete:
  "unassigned_besides s (AList.delete var (AList.update var val a)) (Some var) =
   unassigned_besides s a (Some var)"
  unfolding unassigned_besides_def
  by (rule arg_cong [where f = length], rule filter_cong) (auto simp: delete_conv' update_conv')

lemma unassigned_besides_crossword:
  "crossword s' = crossword s \<Longrightarrow> unassigned_besides s' a skip = unassigned_besides s a skip"
  by (simp add: unassigned_besides_def)

lemma dict_del_Inr: "dict_del a var = Inr a' \<Longrightarrow> a' = AList.delete var a"
  by (simp add: dict_del_def split: if_splits)

termination backtrack
proof (relation "inv_image (less_than <*lex*> less_than)
    (\<lambda>x. case x of
       Inl (s, a) \<Rightarrow> (2 * unassigned_besides s a None + 1, 0)
     | Inr (s, a, var, vals) \<Rightarrow> (2 * unassigned_besides s a (Some var) + 2, length vals))",
    goal_cases)
  case 1
  show ?case by (intro wf_inv_image wf_lex_prod wf_less_than)
next
  case (2 s a s1 var vals)
  have "unassigned_besides s1 a (Some var) < unassigned_besides s1 a None"
    using select_unassigned_variable_in [OF 2(3)] by (intro unassigned_besides_less) simp_all
  moreover have "unassigned_besides s1 a None = unassigned_besides s a None"
    using 2(1) by (intro unassigned_besides_crossword) simp
  ultimately show ?case by simp
next
  case (3 s a var val rest a1 ok)
  then show ?case by (simp add: unassigned_besides_update)
next
  case (4 s a var val rest a1 ok r res y s2 a2 a3)
  have "crossword s2 = crossword s \<and> a2 = a1"
    using backtrack_frame_partial(1) [of s a1] 4 by auto
  moreover have "a3 = AList.delete var a2"
    using 4 by (auto dest: dict_del_Inr)
  moreover have "a1 = AList.update var val a"
    using 4 by simp
  ultimately have "unassigned_besides s2 a3 (Some var) = unassigned_besides s a (Some var)"
    using unassigned_besides_crossword [of s2 s] by (simp add: unassigned_besides_delete)
  then show ?case by simp
next
  case (5 s a var val rest a1 ok a3)
  have "a3 = AList.delete var a1" "a1 = AList.update var val a"
    using 5 by (auto dest: dict_del_Inr)
  then have "unassigned_besides s a3 (Some var) = unassigned_besides s a (Some var)"
    by (simp add: unassigned_besides_delete)
  then show ?case by simp
qed


declare backtrack.simps [simp del] try_values.simps [simp del]

text \<open>\<^verbatim>\<open>solve\<close> discards the result of \<^verbatim>\<open>ac3\<close> and starts the search.\<close>

definition solve :: "creator \<Rightarrow> (error + assignment option \<times> creator) option" where
  "solve s =
     (case enforce_node_consistency s of
        Inl e \<Rightarrow> Some (Inl e)
      | Inr s1 \<Rightarrow>
          (case ac3 s1 None of
             None \<Rightarrow> None
           | Some (Inl e) \<Rightarrow> Some (Inl e)
           | Some (Inr (arc_consistent, s2)) \<Rightarrow>
               (case backtrack s2 [] of
                  Inl e \<Rightarrow> Some (Inl e)
                | Inr (result, s3, a) \<Rightarrow> Some (Inr (result, s3)))))"

section \<open>Properties of the primitives\<close>

lemma remove_words_filter:
  "distinct rem \<Longrightarrow> set rem \<subseteq> set ws \<Longrightarrow>
   remove_words rem ws = Inr (filter (\<lambda>w. w \<notin> set rem) ws)"
proof (induction rem arbitrary: ws)
  case Nil
  then show ?case by simp
next
  case (Cons w rem)
  have sub: "set rem \<subseteq> set (removeAll w ws)"
    using Cons.prems by auto
  have "remove_words (w # rem) ws = remove_words rem (removeAll w ws)"
    using Cons.prems by (simp add: set_remove_def)
  also have "\<dots> = Inr (filter (\<lambda>v. v \<notin> set rem) (removeAll w ws))"
    using Cons.IH [OF _ sub] Cons.prems by simp
  also have "filter (\<lambda>v. v \<notin> set rem) (removeAll w ws) = filter (\<lambda>v. v \<notin> set (w # rem)) ws"
    by (induction ws) auto
  finally show ?case .
qed

lemma remove_wrong_length:
  "remove_words (words_of_wrong_length var ws) ws =
   Inr (filter (\<lambda>word. length word = var_length var) ws)"
proof -
  have "remove_words (words_of_wrong_length var ws) ws =
        Inr (filter (\<lambda>w. w \<notin> set (words_of_wrong_length var ws)) ws)"
    by (rule remove_words_filter) (auto simp: words_of_wrong_length_def)
  moreover have "filter (\<lambda>w. w \<notin> set (words_of_wrong_length var ws)) ws =
                 filter (\<lambda>word. length word = var_length var) ws"
    by (rule filter_cong) (auto simp: words_of_wrong_length_def)
  ultimately show ?thesis by simp
qed

lemma enforce_domains_map:
  "enforce_domains d =
   Inr (map (\<lambda>(var, ws). (var, filter (\<lambda>word. length word = var_length var) ws)) d)"
  by (induction d rule: enforce_domains.induct) (simp_all add: remove_wrong_length)

lemma map_of_enforced:
  "map_of (map (\<lambda>(var, ws). (var, filter (\<lambda>word. length word = var_length var) ws)) d) v =
   map_option (filter (\<lambda>word. length word = var_length v)) (map_of d v)"
  by (induction d) auto

lemma enforce_node_consistency_eq:
  "enforce_node_consistency s =
   Inr (s\<lparr>domains :=
      map (\<lambda>(var, ws). (var, filter (\<lambda>word. length word = var_length var) ws)) (domains s)\<rparr>)"
  by (simp add: enforce_node_consistency_def enforce_domains_map)

section \<open>Example puzzles\<close>

definition across3 :: variable where
  "across3 = \<lparr>var_i = 0, var_j = 0, var_direction = ACROSS, var_length = 3\<rparr>"

definition down3 :: variable where
  "down3 = \<lparr>var_i = 0, var_j = 0, var_direction = DOWN, var_length = 3\<rparr>"

definition down2 :: variable where
  "down2 = \<lparr>var_i = 0, var_j = 0, var_direction = DOWN, var_length = 2\<rparr>"

definition crossing :: crossword where
  "crossing = \<lparr>variables = [across3, down3], words = [''cat'', ''car'', ''dog'', ''ab''],
     overlaps = map_of [((across3, down3), Some (0, 0)), ((down3, across3), Some (0, 0))]\<rparr>"

lemmas example_defs = across3_def down3_def down2_def crossing_def init_def

section \<open>Claims about node consistency\<close>

text \<open>
  C6: \<^verbatim>\<open>enforce_node_consistency\<close> always returns; afterwards every word left in the
  domain of a variable \<open>v\<close> has length \<open>var_length v\<close>, and the words removed from the
  domain are exactly those of another length.
\<close>

theorem enforce_node_consistency_lengths:
  "\<exists>s'. enforce_node_consistency s = Inr s' \<and> crossword s' = crossword s \<and>
     (\<forall>v ws. map_of (domains s) v = Some ws \<longrightarrow>
        (\<exists>ws'. map_of (domains s') v = Some ws' \<and>
           (\<forall>w\<in>set ws'. length w = var_length v) \<and>
           set ws - set ws' = {w \<in> set ws. length w \<noteq> var_length v} \<and>
           set ws' \<subseteq> set ws))"
  by (auto simp: enforce_node_consistency_eq map_of_enforced)

theorem enforce_node_consistency_lengths_witness:
  "map_of (domains (init crossing)) across3 = Some [''cat'', ''car'', ''dog'', ''ab''] \<and>
   (\<exists>s' ws'. enforce_node_consistency (init crossing) = Inr s' \<and>
      map_of (domains s') across3 = Some ws' \<and>
      set [''cat'', ''car'', ''dog'', ''ab''] - set ws' = {''ab''})"
proof -
  have dom: "map_of (domains (init crossing)) across3 = Some [''cat'', ''car'', ''dog'', ''ab'']"
    by (simp add: example_defs)
  from enforce_node_consistency_lengths [of "init crossing"] obtain s' where
    s': "enforce_node_consistency (init crossing) = Inr s'" and
    all: "\<forall>v ws. map_of (domains (init crossing)) v = Some ws \<longrightarrow>
        (\<exists>ws'. map_of (domains s') v = Some ws' \<and>
           (\<forall>w\<in>set ws'. length w = var_length v) \<and>
           set ws - set ws' = {w \<in> set ws. length w \<noteq> var_length v} \<and>
           set ws' \<subseteq> set ws)"
    by blast
  from all dom obtain ws' where
    "map_of (domains s') across3 = Some ws'"
    "set [''cat'', ''car'', ''dog'', ''ab''] - set ws' =
       {w \<in> set [''cat'', ''car'', ''dog'', ''ab'']. length w \<noteq> var_length across3}"
    by blast
  moreover have "{w \<in> set [''cat'', ''car'', ''dog'', ''ab'']. length w \<noteq> var_length across3} = {''ab''}"
    by (auto simp: across3_def)
  ultimately show ?thesis using dom s' by auto
qed

section \<open>Properties of \<open>revise\<close>\<close>

lemma domain_of_Inr: "domain_of s x = Inr ws \<longleftrightarrow> map_of (domains s) x = Some ws"
  by (simp add: domain_of_def split: option.splits)

lemma overlap_of_Inr: "overlap_of s x y = Inr ov \<longleftrightarrow> overlaps (crossword s) (x, y) = Some ov"
  by (simp add: overlap_of_def split: option.splits)

lemma consistent_found_iff:
  "i < length word_x \<Longrightarrow> \<forall>word_y\<in>set dy. j < length word_y \<Longrightarrow>
   consistent_found word_x i j dy = Inr (\<exists>word_y\<in>set dy. word_x ! i = word_y ! j)"
  by (induction dy) (auto simp: char_at_def)

lemma words_to_remove_subset:
  "words_to_remove s y i j dx = Inr r \<Longrightarrow> set r \<subseteq> set dx"
  by (induction dx arbitrary: r) (auto split: sum.splits if_splits)

lemma words_to_remove_eq:
  assumes "domain_of s y = Inr dy" "\<forall>w\<in>set dy. j < length w"
  shows "\<forall>w\<in>set dx. i < length w \<Longrightarrow>
    words_to_remove s y i j dx =
    Inr (filter (\<lambda>word_x. \<not> (\<exists>word_y\<in>set dy. word_x ! i = word_y ! j)) dx)"
  using assms by (induction dx) (simp_all add: consistent_found_iff)

lemma revise_cases:
  assumes "revise s x y = Inr (revised, s')"
  shows "(overlaps (crossword s) (x, y) = Some None \<and> \<not> revised \<and> s' = s) \<or>
    (\<exists>i j dx r. overlaps (crossword s) (x, y) = Some (Some (i, j)) \<and>
       map_of (domains s) x = Some dx \<and> words_to_remove s y i j dx = Inr r \<and>
       set r \<subseteq> set dx \<and> revised = (r \<noteq> []) \<and>
       s' = s\<lparr>domains := AList.update x (filter (\<lambda>w. w \<notin> set r) dx) (domains s)\<rparr>)"
proof (cases "overlaps (crossword s) (x, y)")
  case None
  with assms show ?thesis by (simp add: revise_def overlap_of_def)
next
  case (Some ov)
  show ?thesis
  proof (cases ov)
    case None
    with Some assms show ?thesis by (auto simp: revise_def overlap_of_def)
  next
    case (Some ij)
    obtain i j where ij: "ij = (i, j)" by (cases ij)
    from assms \<open>overlaps (crossword s) (x, y) = Some ov\<close> Some ij
    obtain dx r dx' where dx: "map_of (domains s) x = Some dx"
      and r: "words_to_remove s y i j dx = Inr r"
      and dx': "remove_words (remdups r) dx = Inr dx'"
      and res: "revised = (r \<noteq> [])" "s' = s\<lparr>domains := AList.update x dx' (domains s)\<rparr>"
      by (auto simp: revise_def overlap_of_def domain_of_Inr split: sum.splits)
    have sub: "set r \<subseteq> set dx" using r by (rule words_to_remove_subset)
    then have "remove_words (remdups r) dx = Inr (filter (\<lambda>w. w \<notin> set (remdups r)) dx)"
      by (intro remove_words_filter) simp_all
    with dx' have "dx' = filter (\<lambda>w. w \<notin> set r) dx" by simp
    with dx r res sub \<open>overlaps (crossword s) (x, y) = Some ov\<close> Some ij show ?thesis
      by blast
  qed
qed

lemma revise_total:
  assumes "overlaps (crossword s) (x, y) = Some (Some (i, j))"
    and "map_of (domains s) x = Some dx" and "map_of (domains s) y = Some dy"
    and "\<forall>w\<in>set dx. i < length w" and "\<forall>w\<in>set dy. j < length w"
  shows "revise s x y =
    Inr (\<exists>w\<in>set dx. \<not> (\<exists>word_y\<in>set dy. w ! i = word_y ! j),
         s\<lparr>domains := AList.update x
            (filter (\<lambda>w. \<exists>word_y\<in>set dy. w ! i = word_y ! j) dx) (domains s)\<rparr>)"
proof -
  let ?bad = "\<lambda>word_x. \<not> (\<exists>word_y\<in>set dy. word_x ! i = word_y ! j)"
  have r: "words_to_remove s y i j dx = Inr (filter ?bad dx)"
    using assms by (intro words_to_remove_eq) (simp_all add: domain_of_Inr)
  have "remove_words (remdups (filter ?bad dx)) dx =
        Inr (filter (\<lambda>w. w \<notin> set (remdups (filter ?bad dx))) dx)"
    by (intro remove_words_filter) auto
  moreover have "filter (\<lambda>w. w \<notin> set (remdups (filter ?bad dx))) dx =
      filter (\<lambda>w. \<exists>word_y\<in>set dy. w ! i = word_y ! j) dx"
    by (rule filter_cong) auto
  ultimately have rm: "remove_words (remdups (filter ?bad dx)) dx =
      Inr (filter (\<lambda>w. \<exists>word_y\<in>set dy. w ! i = word_y ! j) dx)"
    by simp
  have ne: "(filter ?bad dx \<noteq> []) = (\<exists>w\<in>set dx. ?bad w)"
    by (simp add: filter_empty_conv)
  show ?thesis
    using assms(1,2) r rm ne
    by (simp add: revise_def overlap_of_def domain_of_def)
qed


definition narrowed :: creator where
  "narrowed = \<lparr>crossword = crossing,
     domains = [(across3, [''cat'', ''dog'']), (down3, [''cow'', ''cab''])],
     backtrack_calls = 0\<rparr>"

section \<open>Claims about \<open>revise\<close>\<close>

text \<open>
  C4: for distinct variables \<open>x\<close> and \<open>y\<close>: when the overlap table gives no overlap,
  \<^verbatim>\<open>revise(x, y)\<close> changes nothing and returns \<open>False\<close>; when it gives the offsets
  \<open>(i, j)\<close> (and the words of both domains are long enough to be read there), it removes
  from the domain of \<open>x\<close> exactly the words that agree with no word of the domain of \<open>y\<close>,
  leaves the other domains as they are, and returns \<open>True\<close> exactly when the domain of
  \<open>x\<close> changed.
\<close>

theorem revise_removes_unsupported:
  assumes "x \<noteq> y"
  shows "(overlaps (crossword s) (x, y) = Some None \<longrightarrow> revise s x y = Inr (False, s)) \<and>
    (\<forall>i j dx dy.
       overlaps (crossword s) (x, y) = Some (Some (i, j)) \<and>
       map_of (domains s) x = Some dx \<and> map_of (domains s) y = Some dy \<and>
       (\<forall>w\<in>set dx. i < length w) \<and> (\<forall>w\<in>set dy. j < length w) \<longrightarrow>
       (\<exists>revised s'. revise s x y = Inr (revised, s') \<and> crossword s' = crossword s \<and>
          map_of (domains s') x = Some (filter (\<lambda>wx. \<exists>wy\<in>set dy. wx ! i = wy ! j) dx) \<and>
          map_of (domains s') y = Some dy \<and>
          (\<forall>z. z \<noteq> x \<longrightarrow> map_of (domains s') z = map_of (domains s) z) \<and>
          (revised \<longleftrightarrow> map_of (domains s') x \<noteq> map_of (domains s) x)))"
proof (intro conjI impI allI)
  assume "overlaps (crossword s) (x, y) = Some None"
  then show "revise s x y = Inr (False, s)"
    by (simp add: revise_def overlap_of_def)
next
  fix i j dx dy
  assume a: "overlaps (crossword s) (x, y) = Some (Some (i, j)) \<and>
       map_of (domains s) x = Some dx \<and> map_of (domains s) y = Some dy \<and>
       (\<forall>w\<in>set dx. i < length w) \<and> (\<forall>w\<in>set dy. j < length w)"
  let ?ok = "\<lambda>wx. \<exists>wy\<in>set dy. wx ! i = wy ! j"
  let ?s' = "s\<lparr>domains := AList.update x (filter ?ok dx) (domains s)\<rparr>"
  have rev: "revise s x y = Inr (\<exists>w\<in>set dx. \<not> ?ok w, ?s')"
    using a by (intro revise_total) simp_all
  have changed: "(\<exists>w\<in>set dx. \<not> ?ok w) \<longleftrightarrow> filter ?ok dx \<noteq> dx"
    by (simp add: filter_id_conv)
  show "\<exists>revised s'. revise s x y = Inr (revised, s') \<and> crossword s' = crossword s \<and>
          map_of (domains s') x = Some (filter ?ok dx) \<and>
          map_of (domains s') y = Some dy \<and>
          (\<forall>z. z \<noteq> x \<longrightarrow> map_of (domains s') z = map_of (domains s) z) \<and>
          (revised \<longleftrightarrow> map_of (domains s') x \<noteq> map_of (domains s) x)"
    using rev changed a assms by (simp add: update_conv')
qed

theorem revise_removes_unsupported_witness:
  "across3 \<noteq> down3 \<and>
   (\<exists>s'. revise narrowed across3 down3 = Inr (True, s') \<and>
      map_of (domains s') across3 = Some [''cat''] \<and>
      map_of (domains s') down3 = Some [''cow'', ''cab''])"
proof -
  have ne: "across3 \<noteq> down3"
    by (simp add: across3_def down3_def)
  have pre: "overlaps (crossword narrowed) (across3, down3) = Some (Some (0, 0)) \<and>
       map_of (domains narrowed) across3 = Some [''cat'', ''dog''] \<and>
       map_of (domains narrowed) down3 = Some [''cow'', ''cab''] \<and>
       (\<forall>w\<in>set [''cat'', ''dog'']. 0 < length w) \<and> (\<forall>w\<in>set [''cow'', ''cab'']. 0 < length w)"
    by (simp add: narrowed_def example_defs)
  have "\<exists>revised s'. revise narrowed across3 down3 = Inr (revised, s') \<and>
      crossword s' = crossword narrowed \<and>
      map_of (domains s') across3 =
        Some (filter (\<lambda>wx. \<exists>wy\<in>set [''cow'', ''cab'']. wx ! 0 = wy ! 0) [''cat'', ''dog'']) \<and>
      map_of (domains s') down3 = Some [''cow'', ''cab''] \<and>
      (\<forall>z. z \<noteq> across3 \<longrightarrow> map_of (domains s') z = map_of (domains narrowed) z) \<and>
      (revised \<longleftrightarrow> map_of (domains s') across3 \<noteq> map_of (domains narrowed) across3)"
    using revise_removes_unsupported [OF ne, of narrowed, THEN conjunct2, rule_format, OF pre] .
  then obtain revised s' where
    r: "revise narrowed across3 down3 = Inr (revised, s')" and
    x: "map_of (domains s') across3 =
       Some (filter (\<lambda>wx. \<exists>wy\<in>set [''cow'', ''cab'']. wx ! 0 = wy ! 0) [''cat'', ''dog''])" and
    y: "map_of (domains s') down3 = Some [''cow'', ''cab'']" and
    c: "revised \<longleftrightarrow> map_of (domains s') across3 \<noteq> map_of (domains narrowed) across3"
    by blast
  have x': "map_of (domains s') across3 = Some [''cat'']"
    using x by simp
  have "map_of (domains narrowed) across3 = Some [''cat'', ''dog'']"
    using pre by simp
  with c x' have "revised" by simp
  with r have "revise narrowed across3 down3 = Inr (True, s')" by simp
  with x' y ne show ?thesis
    by (intro conjI exI [of _ s']) simp_all
qed

section \<open>Properties of \<open>select_unassigned_variable\<close>\<close>

lemma map_err_sort_key_of_elem:
  "map_err (sort_key_of s) xs = Inr ys \<Longrightarrow> p \<in> set ys \<Longrightarrow> sort_key_of s (snd p) = Inr p"
proof (induction xs arbitrary: ys)
  case Nil
  then show ?case by simp
next
  case (Cons x xs)
  from Cons.prems(1) obtain k ks where
    k: "sort_key_of s x = Inr k" and ks: "map_err (sort_key_of s) xs = Inr ks" and
    ys: "ys = k # ks"
    by (auto split: sum.splits)
  from k have "snd k = x"
    by (auto simp: sort_key_of_def split: sum.splits)
  with k ys Cons.prems(2) Cons.IH [OF ks] show ?case
    by auto
qed

lemma map_err_sort_key_of_total:
  "\<forall>v\<in>set xs. map_of (domains s) v \<noteq> None \<Longrightarrow> \<exists>ys. map_err (sort_key_of s) xs = Inr ys"
  by (induction xs) (auto simp: sort_key_of_def domain_of_def)

lemma min_from_least:
  "\<exists>k. (k, min_from best xs) \<in> set (best # xs) \<and>
       (\<forall>p\<in>set (best # xs). \<not> key_less (fst p) k)"
proof (induction xs arbitrary: best)
  case Nil
  show ?case
    by (rule exI [of _ "fst best"]) (simp add: key_less_def)
next
  case (Cons x xs)
  let ?b = "if key_less (fst x) (fst best) then x else best"
  from Cons.IH [of ?b] obtain k where
    k: "(k, min_from ?b xs) \<in> set (?b # xs)" and
    least: "\<forall>p\<in>set (?b # xs). \<not> key_less (fst p) k"
    by blast
  from least have b: "\<not> key_less (fst ?b) k" by simp
  have "\<not> key_less (fst best) k" "\<not> key_less (fst x) k"
    using b by (auto simp: key_less_def split: if_splits)
  with least have "\<forall>p\<in>set (best # x # xs). \<not> key_less (fst p) k"
    by auto
  moreover from k have "(k, min_from best (x # xs)) \<in> set (best # x # xs)"
    by (auto split: if_splits)
  ultimately show ?case by blast
qed

lemma select_unassigned_variable_least:
  assumes "select_unassigned_variable s a = Inr v"
  shows "\<exists>dv. map_of (domains s) v = Some dv \<and>
    (\<forall>u du. u \<in> set (variables (crossword s)) \<and> map_of a u = None \<and>
        map_of (domains s) u = Some du \<longrightarrow>
        length dv \<le> length du \<and>
        (length du = length dv \<longrightarrow>
           length (neighbors (crossword s) u) \<le> length (neighbors (crossword s) v)))"
proof -
  let ?us = "filter (\<lambda>var. map_of a var = None) (variables (crossword s))"
  from assms obtain first others where
    keys: "map_err (sort_key_of s) ?us = Inr (first # others)" and
    v: "v = min_from first others"
    by (auto simp: select_unassigned_variable_def Let_def split: sum.splits list.splits)
  from min_from_least [of first others] v obtain k where
    k: "(k, v) \<in> set (first # others)" and
    least: "\<forall>p\<in>set (first # others). \<not> key_less (fst p) k"
    by blast
  from map_err_sort_key_of_elem [OF keys k] have kv: "sort_key_of s v = Inr (k, v)"
    by simp
  then obtain dv where dv: "map_of (domains s) v = Some dv"
    and kd: "k = (length dv, - int (length (neighbors (crossword s) v)))"
    by (auto simp: sort_key_of_def domain_of_def split: option.splits)
  have "length dv \<le> length du \<and>
        (length du = length dv \<longrightarrow>
           length (neighbors (crossword s) u) \<le> length (neighbors (crossword s) v))"
    if u: "u \<in> set (variables (crossword s))" "map_of a u = None"
      and du: "map_of (domains s) u = Some du" for u du
  proof -
    from u have "u \<in> set ?us" by simp
    also have "set ?us = snd ` set (first # others)"
      using map_err_sort_key_of [OF keys] by (metis set_map)
    finally obtain p where p: "p \<in> set (first # others)" "snd p = u"
      by blast
    from map_err_sort_key_of_elem [OF keys p(1)] p(2) du
    have "fst p = (length du, - int (length (neighbors (crossword s) u)))"
      by (auto simp: sort_key_of_def domain_of_def)
    with least p(1) kd show ?thesis
      by (auto simp: key_less_def)
  qed
  with dv show ?thesis by blast
qed

lemma select_unassigned_variable_total:
  assumes "\<exists>u\<in>set (variables (crossword s)). map_of a u = None"
    and "\<forall>u\<in>set (variables (crossword s)). map_of a u = None \<longrightarrow> map_of (domains s) u \<noteq> None"
  shows "\<exists>v. select_unassigned_variable s a = Inr v"
proof -
  let ?us = "filter (\<lambda>var. map_of a var = None) (variables (crossword s))"
  from assms(2) have "\<forall>v\<in>set ?us. map_of (domains s) v \<noteq> None" by simp
  from map_err_sort_key_of_total [OF this] obtain ys where
    ys: "map_err (sort_key_of s) ?us = Inr ys" by blast
  from assms(1) have "?us \<noteq> []"
    by (simp add: filter_empty_conv)
  with map_err_sort_key_of [OF ys] have "ys \<noteq> []"
    by auto
  then obtain first others where "ys = first # others"
    by (cases ys) auto
  with ys show ?thesis
    by (simp add: select_unassigned_variable_def)
qed

definition lone3 :: variable where
  "lone3 = \<lparr>var_i = 4, var_j = 4, var_direction = ACROSS, var_length = 3\<rparr>"

definition with_lone :: crossword where
  "with_lone = \<lparr>variables = [lone3, across3, down3], words = [''cat'', ''dog'', ''cow''],
     overlaps = map_of
       [((across3, down3), Some (0, 0)), ((down3, across3), Some (0, 0)),
        ((lone3, across3), None), ((across3, lone3), None),
        ((lone3, down3), None), ((down3, lone3), None)]\<rparr>"

definition tied :: creator where
  "tied = \<lparr>crossword = with_lone,
     domains = [(lone3, [''cat'', ''dog'']), (across3, [''cat'', ''dog'']),
                (down3, [''cat'', ''dog'', ''cow''])],
     backtrack_calls = 0\<rparr>"

section \<open>Claims about \<open>select_unassigned_variable\<close>\<close>

text \<open>
  C8: on an incomplete assignment (some variable of the puzzle is unassigned, and every
  unassigned variable has a domain), \<^verbatim>\<open>select_unassigned_variable\<close> returns an
  unassigned variable whose domain is no larger than that of any unassigned variable, and
  among the unassigned variables with a domain of that size none has more neighbours.
\<close>

theorem select_unassigned_variable_mrv_degree:
  assumes "\<exists>u\<in>set (variables (crossword s)). map_of a u = None"
    and "\<forall>u\<in>set (variables (crossword s)). map_of a u = None \<longrightarrow> map_of (domains s) u \<noteq> None"
  shows "\<exists>v dv. select_unassigned_variable s a = Inr v \<and>
    v \<in> set (variables (crossword s)) \<and> map_of a v = None \<and>
    map_of (domains s) v = Some dv \<and>
    (\<forall>u du. u \<in> set (variables (crossword s)) \<and> map_of a u = None \<and>
        map_of (domains s) u = Some du \<longrightarrow>
        length dv \<le> length du \<and>
        (length du = length dv \<longrightarrow>
           length (neighbors (crossword s) u) \<le> length (neighbors (crossword s) v)))"
proof -
  from select_unassigned_variable_total [OF assms] obtain v where
    v: "select_unassigned_variable s a = Inr v" by blast
  from select_unassigned_variable_in [OF v] select_unassigned_variable_least [OF v] v
  show ?thesis by blast
qed


theorem select_unassigned_variable_mrv_degree_witness:
  "(\<exists>u\<in>set (variables (crossword tied)). map_of ([] :: assignment) u = None) \<and>
   select_unassigned_variable tied [] = Inr across3 \<and>
   (\<exists>v dv. select_unassigned_variable tied [] = Inr v \<and>
      map_of (domains tied) v = Some dv \<and> length dv \<le> length [''cat'', ''dog''])"
proof -
  have h1: "\<exists>u\<in>set (variables (crossword tied)). map_of ([] :: assignment) u = None"
    by (auto simp: tied_def with_lone_def)
  have h2: "\<forall>u\<in>set (variables (crossword tied)).
      map_of ([] :: assignment) u = None \<longrightarrow> map_of (domains tied) u \<noteq> None"
    by (simp add: tied_def with_lone_def lone3_def example_defs)
  from select_unassigned_variable_mrv_degree [OF h1 h2] obtain v dv where
    v: "select_unassigned_variable tied [] = Inr v" "map_of (domains tied) v = Some dv" and
    least: "\<forall>u du. u \<in> set (variables (crossword tied)) \<and> map_of ([] :: assignment) u = None \<and>
        map_of (domains tied) u = Some du \<longrightarrow> length dv \<le> length du \<and>
        (length du = length dv \<longrightarrow>
           length (neighbors (crossword tied) u) \<le> length (neighbors (crossword tied) v))"
    by blast
  have "lone3 \<in> set (variables (crossword tied)) \<and> map_of ([] :: assignment) lone3 = None \<and>
        map_of (domains tied) lone3 = Some [''cat'', ''dog'']"
    by (simp add: tied_def with_lone_def)
  with least have "length dv \<le> length [''cat'', ''dog'']"
    by blast
  moreover have "select_unassigned_variable tied [] = Inr across3"
    by (simp add: select_unassigned_variable_def sort_key_of_def domain_of_def neighbors_def
        has_overlap_def key_less_def tied_def with_lone_def lone3_def example_defs)
  ultimately show ?thesis
    using h1 v by blast
qed

section \<open>Termination of the worklist loop\<close>

definition total_size :: "creator \<Rightarrow> nat" where
  "total_size s = sum_list (map (\<lambda>(var, ws). length ws) (domains s))"

lemma total_size_update:
  "map_of d x = Some dx \<Longrightarrow>
   sum_list (map (\<lambda>(var, ws). length ws) (AList.update x dx' d)) + length dx =
   sum_list (map (\<lambda>(var, ws). length ws) d) + length dx'"
  by (induction d) (auto split: if_splits)

lemma revise_frame:
  assumes "revise s x y = Inr (revised, s')"
  shows "crossword s' = crossword s" "backtrack_calls s' = backtrack_calls s"
  using revise_cases [OF assms] by auto

lemma revise_total_size:
  assumes "revise s x y = Inr (revised, s')"
  shows "if revised then total_size s' < total_size s else total_size s' = total_size s"
  using revise_cases [OF assms]
proof (elim disjE exE conjE)
  assume "\<not> revised" "s' = s"
  then show ?thesis by simp
next
  fix i j dx r
  assume dx: "map_of (domains s) x = Some dx" and sub: "set r \<subseteq> set dx"
    and rev: "revised = (r \<noteq> [])"
    and s': "s' = s\<lparr>domains := AList.update x (filter (\<lambda>w. w \<notin> set r) dx) (domains s)\<rparr>"
  let ?dx' = "filter (\<lambda>w. w \<notin> set r) dx"
  have eq: "total_size s' + length dx = total_size s + length ?dx'"
    using total_size_update [OF dx, of ?dx'] s' by (simp add: total_size_def)
  show ?thesis
  proof (cases "r = []")
    case True
    with eq rev show ?thesis by simp
  next
    case False
    then obtain w where "w \<in> set r" by (cases r) auto
    with sub have "w \<in> set dx" "\<not> w \<notin> set r" by auto
    then have "length ?dx' < length dx" by (rule length_filter_less)
    with eq rev False show ?thesis by simp
  qed
qed

definition ac3_measure :: "creator \<Rightarrow> (variable \<times> variable) list \<Rightarrow> nat" where
  "ac3_measure s queue =
     total_size s * Suc (length (variables (crossword s))) + length queue"

lemma ac3_measure_revised:
  assumes "revise s x y = Inr (True, s')"
  shows "ac3_measure s'
      (rest @ map (\<lambda>k. (k, x)) (filter (\<lambda>k. k \<noteq> y) (neighbors (crossword s') x)))
    < ac3_measure s ((x, y) # rest)"
proof -
  let ?n = "length (variables (crossword s))"
  have c: "crossword s' = crossword s" using assms by (rule revise_frame)
  have "total_size s' < total_size s"
    using revise_total_size [OF assms] by simp
  then have "Suc (total_size s') \<le> total_size s" by simp
  then have "Suc (total_size s') * Suc ?n \<le> total_size s * Suc ?n"
    by (rule mult_le_mono1)
  moreover have "length (filter (\<lambda>k. k \<noteq> y) (neighbors (crossword s') x)) \<le> ?n"
    unfolding c neighbors_def
    by (rule order_trans [OF length_filter_le]) (rule length_filter_le)
  ultimately show ?thesis
    by (simp add: ac3_measure_def c)
qed

lemma ac3_measure_unrevised:
  assumes "revise s x y = Inr (False, s')"
  shows "ac3_measure s' rest < ac3_measure s ((x, y) # rest)"
  using revise_total_size [OF assms] revise_frame(1) [OF assms]
  by (simp add: ac3_measure_def)

lemma ac3_loop_terminates: "\<exists>res. ac3_loop s queue = Some res"
proof (induction "ac3_measure s queue" arbitrary: s queue rule: less_induct)
  case less
  show ?case
  proof (cases queue)
    case Nil
    then show ?thesis by (subst ac3_loop.simps) simp
  next
    case (Cons arc rest)
    obtain x y where arc: "arc = (x, y)" by (cases arc)
    show ?thesis
    proof (cases "revise s x y")
      case (Inl e)
      with Cons arc show ?thesis by (subst ac3_loop.simps) simp
    next
      case (Inr p)
      obtain revised s' where p: "p = (revised, s')" by (cases p)
      show ?thesis
      proof (cases revised)
        case False
        with Inr p have rev: "revise s x y = Inr (False, s')" by simp
        from less [OF ac3_measure_unrevised [OF rev, of rest, folded arc Cons]]
        obtain res where "ac3_loop s' rest = Some res" by blast
        with Cons arc rev show ?thesis by (subst ac3_loop.simps) simp
      next
        case True
        with Inr p have rev: "revise s x y = Inr (True, s')" by simp
        let ?q = "rest @ map (\<lambda>k. (k, x)) (filter (\<lambda>k. k \<noteq> y) (neighbors (crossword s') x))"
        from less [OF ac3_measure_revised [OF rev, of rest, folded arc Cons]]
        obtain res where "ac3_loop s' ?q = Some res" by blast
        with Cons arc rev show ?thesis
          by (subst ac3_loop.simps) (simp split: sum.splits)
      qed
    qed
  qed
qed

section \<open>Claims about the termination of \<open>ac3\<close>\<close>

text \<open>
  C9: for every state of the solver and every initial arc list, given or defaulted,
  \<^verbatim>\<open>ac3\<close> returns: its worklist loop cannot run forever, because a revision that
  re-enqueues arcs strictly shrinks the total size of the domains.
\<close>

theorem ac3_terminates: "\<exists>res. ac3 s arcs = Some res"
  using ac3_loop_terminates by (simp add: ac3_def split: option.splits sum.splits)

section \<open>What a call of \<open>backtrack\<close> leaves behind\<close>

lemma dict_del_fresh_update:
  "map_of a var = None \<Longrightarrow> dict_del (AList.update var val a) var = Inr a"
  by (simp add: dict_del_def update_conv' delete_fresh_update)

lemma backtrack_frame:
  "\<forall>res s2 a2. backtrack s a = Inr (res, s2, a2) \<longrightarrow>
      crossword s2 = crossword s \<and> domains s2 = domains s \<and>
      (case res of None \<Rightarrow> a2 = a | Some r \<Rightarrow> a2 = r)"
  "map_of a' var = None \<longrightarrow>
     (\<forall>res s2 a2. try_values s' a' var vals = Inr (res, s2, a2) \<longrightarrow>
        crossword s2 = crossword s' \<and> domains s2 = domains s' \<and>
        (case res of None \<Rightarrow> a2 = a' | Some r \<Rightarrow> a2 = r))"
proof (induction s a and s' a' var vals rule: backtrack_try_values.induct)
  case (1 s a)
  show ?case
  proof (intro allI impI)
    fix res s2 a2
    assume eq: "backtrack s a = Inr (res, s2, a2)"
    let ?s1 = "s\<lparr>backtrack_calls := Suc (backtrack_calls s)\<rparr>"
    show "crossword s2 = crossword s \<and> domains s2 = domains s \<and>
      (case res of None \<Rightarrow> a2 = a | Some r \<Rightarrow> a2 = r)"
    proof (cases "assignment_complete ?s1 a")
      case True
      with eq show ?thesis
        by (auto simp: backtrack.simps Let_def)
    next
      case False
      with eq obtain v vs where
        sel: "select_unassigned_variable ?s1 a = Inr v" and
        ord: "order_domain_values ?s1 v a = Inr vs" and
        tv: "try_values ?s1 a v vs = Inr (res, s2, a2)"
        by (auto simp: backtrack.simps Let_def split: sum.splits)
      have "map_of a v = None"
        using select_unassigned_variable_in [OF sel] by simp
      with "1.IH" [OF refl False sel ord] tv show ?thesis
        by simp
    qed
  qed
next
  case (2 s a var)
  then show ?case by (simp add: try_values.simps)
next
  case (3 s a var val rest)
  show ?case
  proof (intro allI impI)
    fix res s2 a2
    assume fresh: "map_of a var = None"
    assume eq: "try_values s a var (val # rest) = Inr (res, s2, a2)"
    let ?a1 = "AList.update var val a"
    have del: "dict_del ?a1 var = Inr a"
      using fresh by (rule dict_del_fresh_update)
    from eq obtain ok where ok: "consistent s ?a1 = Inr ok"
      by (auto simp: try_values.simps Let_def split: sum.splits)
    show "crossword s2 = crossword s \<and> domains s2 = domains s \<and>
      (case res of None \<Rightarrow> a2 = a | Some r \<Rightarrow> a2 = r)"
    proof (cases ok)
      case False
      with eq ok del have "try_values s a var rest = Inr (res, s2, a2)"
        by (simp add: try_values.simps Let_def)
      with "3.IH"(3) [OF refl ok False del] fresh show ?thesis
        by simp
    next
      case True
      from eq ok True obtain r sb ab where
        bt: "backtrack s ?a1 = Inr (r, sb, ab)"
        by (auto simp: try_values.simps Let_def split: sum.splits)
      from "3.IH"(1) [OF refl ok True] bt have
        frame: "crossword sb = crossword s" "domains sb = domains s"
          "case r of None \<Rightarrow> ab = ?a1 | Some r' \<Rightarrow> ab = r'"
        by auto
      show ?thesis
      proof (cases r)
        case (Some r')
        with eq ok True bt frame show ?thesis
          by (auto simp: try_values.simps Let_def)
      next
        case None
        with frame have ab: "ab = ?a1" by simp
        from eq ok True bt None ab del
        have "try_values sb a var rest = Inr (res, s2, a2)"
          by (simp add: try_values.simps Let_def)
        with "3.IH"(2) [OF refl ok True bt refl refl None] ab del fresh frame
        show ?thesis
          by simp
      qed
    qed
  qed
qed

lemma backtrack_None:
  "backtrack s a = Inr (None, s2, a2) \<Longrightarrow>
   a2 = a \<and> crossword s2 = crossword s \<and> domains s2 = domains s"
  using backtrack_frame(1) [of s a] by auto

lemma backtrack_Some:
  "backtrack s a = Inr (Some r, s2, a2) \<Longrightarrow>
   a2 = r \<and> crossword s2 = crossword s \<and> domains s2 = domains s"
  using backtrack_frame(1) [of s a] by auto

text \<open>The loop of \<open>backtrack\<close>, with the dictionary restored after a failed trial.\<close>

lemma try_values_Cons:
  assumes "map_of a var = None"
  shows "try_values s a var (val # rest) =
    (case consistent s (AList.update var val a) of
       Inl e \<Rightarrow> Inl e
     | Inr ok \<Rightarrow>
         if ok then
           (case backtrack s (AList.update var val a) of
              Inl e \<Rightarrow> Inl e
            | Inr (None, s2, a2) \<Rightarrow> try_values s2 a var rest
            | Inr (Some r, s2, a2) \<Rightarrow> Inr (Some r, s2, r))
         else try_values s a var rest)"
proof -
  let ?a1 = "AList.update var val a"
  have del: "dict_del ?a1 var = Inr a"
    using assms by (rule dict_del_fresh_update)
  show ?thesis
  proof (cases "consistent s ?a1")
    case (Inl e)
    then show ?thesis by (simp add: try_values.simps)
  next
    case (Inr ok)
    show ?thesis
    proof (cases ok)
      case False
      with Inr del show ?thesis by (simp add: try_values.simps)
    next
      case True
      show ?thesis
      proof (cases "backtrack s ?a1")
        case (Inl e)
        with Inr True show ?thesis by (simp add: try_values.simps)
      next
        case bt: (Inr p)
        obtain r s2 a2 where p: "p = (r, s2, a2)" by (cases p)
        show ?thesis
        proof (cases r)
          case None
          with bt p backtrack_None [of s ?a1 s2 a2] have "a2 = ?a1" by simp
          with Inr True bt p None del show ?thesis by (simp add: try_values.simps)
        next
          case (Some r')
          with bt p backtrack_Some [of s ?a1 r' s2 a2] have "a2 = r'" by simp
          with Inr True bt p Some show ?thesis by (simp add: try_values.simps)
        qed
      qed
    qed
  qed
qed

text \<open>Induction along the search, the loop being entered with an unassigned variable.\<close>

lemma backtrack_induct [case_names backtrack Nil Cons]:
  assumes bt: "\<And>s a.
      (\<And>var vals.
          \<not> assignment_complete s a \<Longrightarrow>
          select_unassigned_variable (s\<lparr>backtrack_calls := Suc (backtrack_calls s)\<rparr>) a = Inr var \<Longrightarrow>
          order_domain_values (s\<lparr>backtrack_calls := Suc (backtrack_calls s)\<rparr>) var a = Inr vals \<Longrightarrow>
          Q (s\<lparr>backtrack_calls := Suc (backtrack_calls s)\<rparr>) a var vals) \<Longrightarrow>
      P s a"
    and nil: "\<And>s a var. Q s a var []"
    and cons: "\<And>s a var val rest.
      map_of a var = None \<Longrightarrow>
      (consistent s (AList.update var val a) = Inr True \<Longrightarrow> P s (AList.update var val a)) \<Longrightarrow>
      (\<And>s2. consistent s (AList.update var val a) = Inr True \<Longrightarrow>
          backtrack s (AList.update var val a) = Inr (None, s2, AList.update var val a) \<Longrightarrow>
          Q s2 a var rest) \<Longrightarrow>
      (consistent s (AList.update var val a) = Inr False \<Longrightarrow> Q s a var rest) \<Longrightarrow>
      Q s a var (val # rest)"
  shows "P s a" and "map_of a' var = None \<longrightarrow> Q s' a' var vals"
proof (induction s a and s' a' var vals rule: backtrack_try_values.induct)
  case (1 s a)
  show ?case
  proof (rule bt)
    fix var vals
    let ?s1 = "s\<lparr>backtrack_calls := Suc (backtrack_calls s)\<rparr>"
    assume c: "\<not> assignment_complete s a"
      and sel: "select_unassigned_variable ?s1 a = Inr var"
      and ord: "order_domain_values ?s1 var a = Inr vals"
    from c have c': "\<not> assignment_complete ?s1 a"
      by (simp add: assignment_complete_def)
    from "1.IH" [OF refl c' sel ord] select_unassigned_variable_in [OF sel]
    show "Q ?s1 a var vals" by simp
  qed
next
  case (2 s a var)
  show ?case by (simp add: nil)
next
  case (3 s a var val rest)
  show ?case
  proof
    assume fresh: "map_of a var = None"
    let ?a1 = "AList.update var val a"
    have del: "dict_del ?a1 var = Inr a"
      using fresh by (rule dict_del_fresh_update)
    show "Q s a var (val # rest)"
    proof (rule cons [OF fresh])
      assume "consistent s ?a1 = Inr True"
      then show "P s ?a1" by (rule "3.IH"(1) [OF refl _ TrueI])
    next
      fix s2
      assume ok: "consistent s ?a1 = Inr True"
        and b: "backtrack s ?a1 = Inr (None, s2, ?a1)"
      from "3.IH"(2) [OF refl ok TrueI b refl refl refl del] fresh
      show "Q s2 a var rest" by simp
    next
      assume ok: "consistent s ?a1 = Inr False"
      from "3.IH"(3) [OF refl ok _ del] fresh
      show "Q s a var rest" by simp
    qed
  qed
qed

definition stuck :: creator where
  "stuck = \<lparr>crossword = crossing,
     domains = [(across3, [''cat'']), (down3, [''dog''])],
     backtrack_calls = 0\<rparr>"

lemmas search_defs =
  assignment_complete_def select_unassigned_variable_def sort_key_of_def domain_of_def
  overlap_of_def neighbors_def has_overlap_def key_less_def order_domain_values_def
  consistent_def char_at_def dict_del_def


lemma stuck_backtrack:
  "backtrack stuck [] = Inr (None, stuck\<lparr>backtrack_calls := 2\<rparr>, [])"
  by (simp add: backtrack.simps try_values.simps search_defs stuck_def example_defs)


section \<open>Claims about the state a failed search leaves behind\<close>

text \<open>
  C5: for a variable \<open>var\<close> that the assignment does not hold yet (as
  \<^verbatim>\<open>select_unassigned_variable\<close> returns it) and a tried value: when the extended
  assignment is not consistent, or the recursive call fails, \<^verbatim>\<open>del assignment[var]\<close>
  gives back the assignment as it was before the trial, and the next value is tried on it;
  a call of \<^verbatim>\<open>backtrack\<close> that fails leaves the assignment as it was at entry; and the
  domains are the same after the call as before it.
\<close>

theorem backtrack_restores_state:
  "(map_of a var = None \<and> consistent s (AList.update var val a) = Inr False \<longrightarrow>
      dict_del (AList.update var val a) var = Inr a \<and>
      try_values s a var (val # rest) = try_values s a var rest) \<and>
   (map_of a var = None \<and> consistent s (AList.update var val a) = Inr True \<and>
      backtrack s (AList.update var val a) = Inr (None, s2, a2) \<longrightarrow>
      dict_del a2 var = Inr a \<and> domains s2 = domains s \<and>
      try_values s a var (val # rest) = try_values s2 a var rest) \<and>
   (backtrack s a = Inr (None, s3, a3) \<longrightarrow> a3 = a \<and> domains s3 = domains s)"
proof (intro conjI impI)
  assume h: "map_of a var = None \<and> consistent s (AList.update var val a) = Inr False"
  then show "dict_del (AList.update var val a) var = Inr a"
    by (simp add: dict_del_fresh_update)
  from h show "try_values s a var (val # rest) = try_values s a var rest"
    by (simp add: try_values_Cons)
next
  assume h: "map_of a var = None \<and> consistent s (AList.update var val a) = Inr True \<and>
      backtrack s (AList.update var val a) = Inr (None, s2, a2)"
  then have fr: "a2 = AList.update var val a" "domains s2 = domains s"
    using backtrack_None [of s "AList.update var val a" s2 a2] by simp_all
  with h show "dict_del a2 var = Inr a"
    by (simp add: dict_del_fresh_update)
  from fr show "domains s2 = domains s" by simp
  from h show "try_values s a var (val # rest) = try_values s2 a var rest"
    by (simp add: try_values_Cons)
next
  assume "backtrack s a = Inr (None, s3, a3)"
  then show "a3 = a" "domains s3 = domains s"
    using backtrack_None [of s a s3 a3] by simp_all
qed

theorem backtrack_restores_state_witness:
  "backtrack stuck [] = Inr (None, stuck\<lparr>backtrack_calls := 2\<rparr>, []) \<and>
   domains (stuck\<lparr>backtrack_calls := 2\<rparr>) = domains stuck \<and>
   map_of [(across3, ''cat'')] down3 = None \<and>
   consistent stuck (AList.update down3 ''dog'' [(across3, ''cat'')]) = Inr False \<and>
   dict_del (AList.update down3 ''dog'' [(across3, ''cat'')]) down3 = Inr [(across3, ''cat'')] \<and>
   try_values stuck [(across3, ''cat'')] down3 [''dog''] = Inr (None, stuck, [(across3, ''cat'')]) \<and>
   consistent stuck (AList.update across3 ''cat'' []) = Inr True \<and>
   backtrack stuck (AList.update across3 ''cat'' []) =
     Inr (None, stuck\<lparr>backtrack_calls := 1\<rparr>, [(across3, ''cat'')]) \<and>
   dict_del [(across3, ''cat'')] across3 = Inr [] \<and>
   try_values stuck [] across3 [''cat''] = Inr (None, stuck\<lparr>backtrack_calls := 1\<rparr>, [])"
proof -
  have bt: "backtrack stuck [] = Inr (None, stuck\<lparr>backtrack_calls := 2\<rparr>, [])"
    by (rule stuck_backtrack)
  have fresh: "map_of [(across3, ''cat'')] down3 = None"
    by (simp add: example_defs)
  have bad: "consistent stuck (AList.update down3 ''dog'' [(across3, ''cat'')]) = Inr False"
    by (simp add: search_defs stuck_def example_defs)
  have good: "consistent stuck (AList.update across3 ''cat'' []) = Inr True"
    by (simp add: search_defs stuck_def example_defs)
  have inner: "backtrack stuck (AList.update across3 ''cat'' []) =
      Inr (None, stuck\<lparr>backtrack_calls := 1\<rparr>, [(across3, ''cat'')])"
    by (simp add: backtrack.simps try_values.simps search_defs stuck_def example_defs)
  note inst1 = backtrack_restores_state
    [where a = "[(across3, ''cat'')]" and var = down3 and s = stuck and val = "''dog''"
       and rest = "[]"]
  note inst2 = backtrack_restores_state
    [where a = "[]" and var = across3 and s = stuck and val = "''cat''" and rest = "[]"
       and ?s2.0 = "stuck\<lparr>backtrack_calls := 1\<rparr>" and ?a2.0 = "[(across3, ''cat'')]"]
  note inst3 = backtrack_restores_state
    [where a = "[]" and s = stuck and ?s3.0 = "stuck\<lparr>backtrack_calls := 2\<rparr>" and ?a3.0 = "[]"]
  from inst1 fresh bad have
    "dict_del (AList.update down3 ''dog'' [(across3, ''cat'')]) down3 = Inr [(across3, ''cat'')]"
    "try_values stuck [(across3, ''cat'')] down3 [''dog''] = try_values stuck [(across3, ''cat'')] down3 []"
    by blast+
  moreover from inst2 good inner have
    "dict_del [(across3, ''cat'')] across3 = Inr []"
    "try_values stuck [] across3 [''cat''] = try_values (stuck\<lparr>backtrack_calls := 1\<rparr>) [] across3 []"
    by simp_all
  moreover from inst3 bt have "domains (stuck\<lparr>backtrack_calls := 2\<rparr>) = domains stuck"
    by blast
  ultimately show ?thesis
    using bt fresh bad good inner by (simp add: try_values.simps)
qed

section \<open>Which errors the search can raise\<close>

lemma char_at_no_ValueError [simp]: "char_at w k \<noteq> Inl ValueError"
  by (simp add: char_at_def)

lemma domain_of_no_ValueError [simp]: "domain_of s x \<noteq> Inl ValueError"
  by (simp add: domain_of_def split: option.splits)

lemma overlap_of_no_ValueError [simp]: "overlap_of s x y \<noteq> Inl ValueError"
  by (simp add: overlap_of_def split: option.splits)

lemma map_err_error:
  "map_err f xs = Inl e \<Longrightarrow> \<exists>x\<in>set xs. f x = Inl e"
  by (induction xs) (auto split: sum.splits)

lemma sort_key_of_no_ValueError [simp]: "sort_key_of s v \<noteq> Inl ValueError"
  by (auto simp: sort_key_of_def split: sum.splits)

lemma count_disagreeing_no_ValueError [simp]:
  "count_disagreeing word i j ws \<noteq> Inl ValueError"
  by (induction ws) (auto split: sum.splits)

lemma count_eliminated_values_no_ValueError [simp]:
  "count_eliminated_values s var a word ns \<noteq> Inl ValueError"
  by (induction ns) (auto split: sum.splits option.splits)

lemma order_domain_values_no_ValueError [simp]:
  "order_domain_values s var a \<noteq> Inl ValueError"
proof
  assume "order_domain_values s var a = Inl ValueError"
  then obtain ws where "map_err (\<lambda>word.
        case count_eliminated_values s var a word (neighbors (crossword s) var) of
          Inl e \<Rightarrow> Inl e | Inr n \<Rightarrow> Inr (n, word)) ws = Inl ValueError"
    by (auto simp: order_domain_values_def split: sum.splits)
  from map_err_error [OF this] obtain word where
    "(case count_eliminated_values s var a word (neighbors (crossword s) var) of
        Inl e \<Rightarrow> Inl e | Inr n \<Rightarrow> Inr (n, word)) = Inl ValueError"
    by blast
  then have "count_eliminated_values s var a word (neighbors (crossword s) var) = Inl ValueError"
    by (simp split: sum.splits)
  then show False by simp
qed

lemma no_conflict_no_ValueError [simp]: "no_conflict s var1 word1 a \<noteq> Inl ValueError"
  by (induction a) (auto split: sum.splits option.splits if_splits)

lemma no_conflicts_no_ValueError [simp]: "no_conflicts s a b \<noteq> Inl ValueError"
  by (induction b) (auto split: sum.splits if_splits)

lemma consistent_no_ValueError [simp]: "consistent s a \<noteq> Inl ValueError"
  by (simp add: consistent_def)

lemma select_unassigned_variable_no_ValueError:
  assumes "\<exists>u\<in>set (variables (crossword s)). map_of a u = None"
  shows "select_unassigned_variable s a \<noteq> Inl ValueError"
proof
  let ?us = "filter (\<lambda>var. map_of a var = None) (variables (crossword s))"
  assume v: "select_unassigned_variable s a = Inl ValueError"
  from assms have ne: "?us \<noteq> []" by (simp add: filter_empty_conv)
  show False
  proof (cases "map_err (sort_key_of s) ?us")
    case (Inl e)
    with v have "e = ValueError"
      by (simp add: select_unassigned_variable_def)
    moreover from map_err_error [OF Inl] have "e \<noteq> ValueError"
      by auto
    ultimately show False by simp
  next
    case (Inr ys)
    with map_err_sort_key_of [OF Inr] ne have "ys \<noteq> []" by auto
    with v Inr show False
      by (cases ys) (simp_all add: select_unassigned_variable_def)
  qed
qed

lemma incomplete_unassigned:
  assumes "distinct vars" "distinct (map fst a)" "fst ` set a \<subseteq> set vars"
    and "length a \<noteq> length vars"
  shows "\<exists>u\<in>set vars. map_of a u = None"
proof (rule ccontr)
  assume "\<not> (\<exists>u\<in>set vars. map_of a u = None)"
  then have "set vars \<subseteq> fst ` set a"
    by (auto simp: map_of_eq_None_iff)
  with assms(3) have "set vars = set (map fst a)" by auto
  then have "card (set vars) = card (set (map fst a))" by simp
  with distinct_card [OF assms(1)] distinct_card [OF assms(2)] have "length vars = length a"
    by simp
  with assms(4) show False by simp
qed

definition puzzle_assignment :: "creator \<Rightarrow> assignment \<Rightarrow> bool" where
  "puzzle_assignment s a \<longleftrightarrow>
     distinct (variables (crossword s)) \<and> distinct (map fst a) \<and>
     fst ` set a \<subseteq> set (variables (crossword s))"

lemma puzzle_assignment_update:
  "puzzle_assignment s a \<Longrightarrow> var \<in> set (variables (crossword s)) \<Longrightarrow>
   puzzle_assignment s (AList.update var val a)"
  by (auto simp: puzzle_assignment_def distinct_update dom_update)

lemma puzzle_assignment_crossword:
  "crossword s' = crossword s \<Longrightarrow> puzzle_assignment s' a = puzzle_assignment s a"
  by (simp add: puzzle_assignment_def)

lemma backtrack_no_ValueError:
  "puzzle_assignment s a \<longrightarrow> backtrack s a \<noteq> Inl ValueError"
  "map_of a' var = None \<longrightarrow>
     (puzzle_assignment s' a' \<and> var \<in> set (variables (crossword s')) \<longrightarrow>
      try_values s' a' var vals \<noteq> Inl ValueError)"
proof (induction s a and s' a' var vals rule: backtrack_induct)
  case (backtrack s a)
  let ?s1 = "s\<lparr>backtrack_calls := Suc (backtrack_calls s)\<rparr>"
  show ?case
  proof
    assume inv: "puzzle_assignment s a"
    show "backtrack s a \<noteq> Inl ValueError"
    proof (cases "assignment_complete s a")
      case True
      then show ?thesis
        by (simp add: backtrack.simps assignment_complete_def)
    next
      case False
      then have c1: "\<not> assignment_complete ?s1 a"
        by (simp add: assignment_complete_def)
      from False inv have "\<exists>u\<in>set (variables (crossword ?s1)). map_of a u = None"
        using incomplete_unassigned [of "variables (crossword s)" a]
        by (simp add: puzzle_assignment_def assignment_complete_def)
      then have nv: "select_unassigned_variable ?s1 a \<noteq> Inl ValueError"
        by (rule select_unassigned_variable_no_ValueError)
      show ?thesis
      proof (cases "select_unassigned_variable ?s1 a")
        case (Inl e)
        with nv c1 show ?thesis by (auto simp: backtrack.simps)
      next
        case (Inr var)
        note sel = this
        show ?thesis
        proof (cases "order_domain_values ?s1 var a")
          case (Inl e)
          with sel c1 order_domain_values_no_ValueError [of ?s1 var a] show ?thesis
            by (auto simp: backtrack.simps)
        next
          case (Inr vals)
          have "puzzle_assignment ?s1 a"
            using inv by (simp add: puzzle_assignment_def)
          moreover have "var \<in> set (variables (crossword ?s1))"
            using select_unassigned_variable_in [OF sel] by simp
          ultimately have "try_values ?s1 a var vals \<noteq> Inl ValueError"
            using backtrack.IH [OF False sel Inr] by simp
          with sel Inr c1 show ?thesis
            by (simp add: backtrack.simps)
        qed
      qed
    qed
  qed
next
  case (Nil s a var)
  show ?case by (simp add: try_values.simps)
next
  case (Cons s a var val rest)
  let ?a1 = "AList.update var val a"
  show ?case
  proof
    assume inv: "puzzle_assignment s a \<and> var \<in> set (variables (crossword s))"
    then have inv1: "puzzle_assignment s ?a1"
      by (simp add: puzzle_assignment_update)
    show "try_values s a var (val # rest) \<noteq> Inl ValueError"
    proof (cases "consistent s ?a1")
      case (Inl e)
      with consistent_no_ValueError [of s ?a1] Cons.hyps show ?thesis
        by (auto simp: try_values_Cons)
    next
      case (Inr ok)
      show ?thesis
      proof (cases ok)
        case False
        with Inr Cons.IH(3) inv Cons.hyps show ?thesis
          by (simp add: try_values_Cons)
      next
        case True
        with Inr have ok: "consistent s ?a1 = Inr True" by simp
        from Cons.IH(1) [OF ok] inv1 have nb: "backtrack s ?a1 \<noteq> Inl ValueError" by simp
        show ?thesis
        proof (cases "backtrack s ?a1")
          case (Inl e)
          with nb ok Cons.hyps show ?thesis by (auto simp: try_values_Cons)
        next
          case bt: (Inr p)
          obtain r s2 a2 where p: "p = (r, s2, a2)" by (cases p)
          show ?thesis
          proof (cases r)
            case (Some r')
            with bt p ok Cons.hyps show ?thesis by (simp add: try_values_Cons)
          next
            case None
            with bt p backtrack_None [of s ?a1 s2 a2] have
              a2: "a2 = ?a1" and c: "crossword s2 = crossword s" by simp_all
            from bt p None a2 have "backtrack s ?a1 = Inr (None, s2, ?a1)" by simp
            from Cons.IH(2) [OF ok this] inv c
            have "try_values s2 a var rest \<noteq> Inl ValueError"
              by (simp add: puzzle_assignment_def)
            with bt p None ok Cons.hyps show ?thesis by (simp add: try_values_Cons)
          qed
        qed
      qed
    qed
  qed
qed


section \<open>Claims about the error branch of \<open>select_unassigned_variable\<close>\<close>

text \<open>
  C10: when the keys of the assignment are a strict subset of the puzzle's variables, some
  variable is unassigned, so the \<^verbatim>\<open>min\<close> of \<^verbatim>\<open>select_unassigned_variable\<close> is taken
  over a non-empty list: it does not raise \<^verbatim>\<open>ValueError\<close>, and it returns an unassigned
  variable when every variable has a domain. For an assignment of distinct puzzle variables,
  \<^verbatim>\<open>assignment_complete\<close> returning \<open>False\<close> gives that strict inclusion, and a whole
  run of \<^verbatim>\<open>backtrack\<close> never raises \<^verbatim>\<open>ValueError\<close>.
\<close>

theorem select_unassigned_variable_defined:
  "(fst ` set a \<subset> set (variables (crossword s)) \<longrightarrow>
      (\<exists>u\<in>set (variables (crossword s)). map_of a u = None) \<and>
      select_unassigned_variable s a \<noteq> Inl ValueError \<and>
      ((\<forall>u\<in>set (variables (crossword s)). map_of (domains s) u \<noteq> None) \<longrightarrow>
         (\<exists>v. select_unassigned_variable s a = Inr v \<and>
            v \<in> set (variables (crossword s)) \<and> map_of a v = None))) \<and>
   (puzzle_assignment s a \<and> \<not> assignment_complete s a \<longrightarrow>
      fst ` set a \<subset> set (variables (crossword s))) \<and>
   (puzzle_assignment s a \<longrightarrow> backtrack s a \<noteq> Inl ValueError)"
proof (intro conjI impI)
  assume "fst ` set a \<subset> set (variables (crossword s))"
  then show un: "\<exists>u\<in>set (variables (crossword s)). map_of a u = None"
    by (auto simp: map_of_eq_None_iff)
  then show "select_unassigned_variable s a \<noteq> Inl ValueError"
    by (rule select_unassigned_variable_no_ValueError)
  assume "\<forall>u\<in>set (variables (crossword s)). map_of (domains s) u \<noteq> None"
  then have "\<exists>v. select_unassigned_variable s a = Inr v"
    using un by (intro select_unassigned_variable_total) simp_all
  then show "\<exists>v. select_unassigned_variable s a = Inr v \<and>
      v \<in> set (variables (crossword s)) \<and> map_of a v = None"
    using select_unassigned_variable_in by blast
next
  assume h: "puzzle_assignment s a \<and> \<not> assignment_complete s a"
  then have "\<exists>u\<in>set (variables (crossword s)). map_of a u = None"
    using incomplete_unassigned [of "variables (crossword s)" a]
    by (simp add: puzzle_assignment_def assignment_complete_def)
  with h show "fst ` set a \<subset> set (variables (crossword s))"
    by (auto simp: puzzle_assignment_def map_of_eq_None_iff)
next
  assume "puzzle_assignment s a"
  then show "backtrack s a \<noteq> Inl ValueError"
    using backtrack_no_ValueError(1) by blast
qed

theorem select_unassigned_variable_defined_witness:
  "fst ` set ([] :: assignment) \<subset> set (variables (crossword tied)) \<and>
   puzzle_assignment tied [] \<and> \<not> assignment_complete tied [] \<and>
   select_unassigned_variable tied [] = Inr across3 \<and>
   backtrack tied [] \<noteq> Inl ValueError"
proof -
  have sub: "fst ` set ([] :: assignment) \<subset> set (variables (crossword tied))"
    by (auto simp: tied_def with_lone_def)
  have pa: "puzzle_assignment tied []"
    by (simp add: puzzle_assignment_def tied_def with_lone_def lone3_def example_defs)
  have inc: "\<not> assignment_complete tied []"
    by (simp add: assignment_complete_def tied_def with_lone_def)
  have doms: "\<forall>u\<in>set (variables (crossword tied)). map_of (domains tied) u \<noteq> None"
    by (simp add: tied_def with_lone_def lone3_def example_defs)
  note inst = select_unassigned_variable_defined [of "[]" tied]
  from inst sub doms obtain v where "select_unassigned_variable tied [] = Inr v"
    by blast
  moreover have "select_unassigned_variable tied [] = Inr across3"
    by (simp add: select_unassigned_variable_def sort_key_of_def domain_of_def neighbors_def
        has_overlap_def key_less_def tied_def with_lone_def lone3_def example_defs)
  moreover from inst pa have "backtrack tied [] \<noteq> Inl ValueError"
    by blast
  ultimately show ?thesis
    using sub pa inc by simp
qed

section \<open>Invariants of the worklist loop\<close>

lemma ac3_loop_invariant:
  assumes "ac3_loop s queue = Some (Inr (ok, s'))"
    and "I s queue"
    and step: "\<And>s x y rest revised s1.
      I s ((x, y) # rest) \<Longrightarrow> revise s x y = Inr (revised, s1) \<Longrightarrow>
      (revised \<Longrightarrow> \<exists>dx. map_of (domains s1) x = Some dx \<and> dx \<noteq> []) \<Longrightarrow>
      I s1 (if revised
            then rest @ map (\<lambda>k. (k, x)) (filter (\<lambda>k. k \<noteq> y) (neighbors (crossword s1) x))
            else rest)"
  shows "if ok then I s' []
    else (\<exists>s0 x y rest. I s0 ((x, y) # rest) \<and> revise s0 x y = Inr (True, s') \<and>
            map_of (domains s') x = Some [])"
  using assms(1,2)
proof (induction "ac3_measure s queue" arbitrary: s queue rule: less_induct)
  case less
  show ?case
  proof (cases queue)
    case Nil
    with less.prems show ?thesis by (subst (asm) ac3_loop.simps) auto
  next
    case (Cons arc rest)
    obtain x y where arc: "arc = (x, y)" by (cases arc)
    from less.prems(1) Cons arc obtain revised s1 where
      rev: "revise s x y = Inr (revised, s1)"
      by (subst (asm) ac3_loop.simps) (auto split: sum.splits)
    show ?thesis
    proof (cases revised)
      case False
      with rev less.prems(1) Cons arc have loop: "ac3_loop s1 rest = Some (Inr (ok, s'))"
        by (subst (asm) ac3_loop.simps) simp
      from rev False have rev': "revise s x y = Inr (False, s1)" by simp
      have "I s1 rest"
        using step [OF less.prems(2) [unfolded Cons arc] rev] False by simp
      from less.hyps [OF ac3_measure_unrevised [OF rev', of rest, folded arc Cons] loop this]
      show ?thesis .
    next
      case True
      with rev have rev': "revise s x y = Inr (True, s1)" by simp
      let ?q = "rest @ map (\<lambda>k. (k, x)) (filter (\<lambda>k. k \<noteq> y) (neighbors (crossword s1) x))"
      from less.prems(1) Cons arc rev' obtain dx where
        dx: "map_of (domains s1) x = Some dx"
        by (subst (asm) ac3_loop.simps) (auto simp: domain_of_def split: option.splits)
      show ?thesis
      proof (cases "dx = []")
        case True
        with less.prems(1) Cons arc rev' dx have "ok = False" "s' = s1"
          by (subst (asm) ac3_loop.simps, simp add: domain_of_def)+
        with less.prems(2) Cons arc rev' dx True show ?thesis
          by auto
      next
        case False
        with less.prems(1) Cons arc rev' dx have loop: "ac3_loop s1 ?q = Some (Inr (ok, s'))"
          by (subst (asm) ac3_loop.simps) (simp add: domain_of_def)
        have "I s1 ?q"
          using step [OF less.prems(2) [unfolded Cons arc] rev'] dx False by simp
        from less.hyps [OF ac3_measure_revised [OF rev', of rest, folded arc Cons] loop this]
        show ?thesis .
      qed
    qed
  qed
qed

lemma ac3_loop_frame:
  assumes "ac3_loop s queue = Some (Inr (ok, s'))"
  shows "crossword s' = crossword s \<and> backtrack_calls s' = backtrack_calls s"
proof -
  let ?I = "\<lambda>t (q :: (variable \<times> variable) list).
     crossword t = crossword s \<and> backtrack_calls t = backtrack_calls s"
  have "if ok then ?I s' []
    else (\<exists>s0 x y rest. ?I s0 ((x, y) # rest) \<and> revise s0 x y = Inr (True, s') \<and>
            map_of (domains s') x = Some [])"
    by (rule ac3_loop_invariant [OF assms, where I = ?I]) (auto dest: revise_frame)
  then show ?thesis
    by (auto split: if_splits dest: revise_frame)
qed

lemma ac3_frame:
  assumes "ac3 s arcs = Some (Inr (ok, s'))"
  shows "crossword s' = crossword s \<and> backtrack_calls s' = backtrack_calls s"
  using assms ac3_loop_frame
  by (auto simp: ac3_def split: option.splits sum.splits)

section \<open>What the consistency checker accepts\<close>

definition agree :: "creator \<Rightarrow> variable \<times> string \<Rightarrow> variable \<times> string \<Rightarrow> bool" where
  "agree s p1 p2 \<longleftrightarrow>
     (\<forall>i j. overlaps (crossword s) (fst p1, fst p2) = Some (Some (i, j)) \<longrightarrow>
        i < length (snd p1) \<and> j < length (snd p2) \<and> snd p1 ! i = snd p2 ! j)"

lemma no_conflict_True:
  "no_conflict s var1 word1 a = Inr True \<Longrightarrow> p \<in> set a \<Longrightarrow> var1 \<noteq> fst p \<Longrightarrow>
   agree s (var1, word1) p"
proof (induction a)
  case Nil
  then show ?case by simp
next
  case (Cons q a)
  obtain var2 word2 where q: "q = (var2, word2)" by (cases q)
  show ?case
  proof (cases "p = q")
    case True
    with Cons.prems q show ?thesis
      by (auto simp: agree_def overlap_of_def char_at_def
          split: sum.splits option.splits if_splits)
  next
    case False
    from Cons.prems(1) q have "no_conflict s var1 word1 a = Inr True"
      by (auto split: sum.splits option.splits if_splits)
    with Cons.IH Cons.prems False show ?thesis by simp
  qed
qed

lemma no_conflicts_True:
  "no_conflicts s a b = Inr True \<Longrightarrow> p1 \<in> set b \<Longrightarrow>
   no_conflict s (fst p1) (snd p1) a = Inr True"
  by (induction b) (auto split: sum.splits if_splits)

lemma consistent_True:
  assumes "consistent s a = Inr True"
  shows "distinct (map snd a)"
    and "\<forall>p\<in>set a. length (snd p) = var_length (fst p)"
    and "\<forall>p1\<in>set a. \<forall>p2\<in>set a. fst p1 \<noteq> fst p2 \<longrightarrow> agree s p1 p2"
proof -
  from assms have len: "length (remdups (map snd a)) = length (map snd a)"
    and all: "list_all (\<lambda>(var, word). length word = var_length var) a"
    and nc: "no_conflicts s a a = Inr True"
    by (auto simp: consistent_def split: if_splits)
  from len show "distinct (map snd a)"
    by (metis length_remdups_eq remdups_id_iff_distinct)
  from all show "\<forall>p\<in>set a. length (snd p) = var_length (fst p)"
    by (auto simp: list_all_iff)
  show "\<forall>p1\<in>set a. \<forall>p2\<in>set a. fst p1 \<noteq> fst p2 \<longrightarrow> agree s p1 p2"
  proof (intro ballI impI)
    fix p1 p2
    assume p: "p1 \<in> set a" "p2 \<in> set a" "fst p1 \<noteq> fst p2"
    from no_conflicts_True [OF nc p(1)] p(2,3)
    have "agree s (fst p1, snd p1) p2" by (rule no_conflict_True)
    then show "agree s p1 p2" by simp
  qed
qed

lemma overlap_of_crossword:
  "crossword s' = crossword s \<Longrightarrow> overlap_of s' x y = overlap_of s x y"
  by (simp add: overlap_of_def)

lemma no_conflict_crossword:
  assumes "crossword s' = crossword s"
  shows "no_conflict s' var1 word1 a = no_conflict s var1 word1 a"
proof (induction a)
  case Nil
  show ?case by simp
next
  case (Cons q a)
  obtain var2 word2 where q: "q = (var2, word2)" by (cases q)
  show ?case
    unfolding q no_conflict.simps overlap_of_crossword [OF assms] Cons.IH ..
qed

lemma no_conflicts_crossword:
  assumes "crossword s' = crossword s"
  shows "no_conflicts s' a b = no_conflicts s a b"
proof (induction b)
  case Nil
  show ?case by simp
next
  case (Cons q b)
  obtain var1 word1 where q: "q = (var1, word1)" by (cases q)
  show ?case
    unfolding q no_conflicts.simps no_conflict_crossword [OF assms] Cons.IH ..
qed

lemma consistent_crossword:
  assumes "crossword s' = crossword s"
  shows "consistent s' a = consistent s a"
  unfolding consistent_def no_conflicts_crossword [OF assms] ..

lemma assignment_complete_crossword:
  "crossword s' = crossword s \<Longrightarrow> assignment_complete s' a = assignment_complete s a"
  by (simp add: assignment_complete_def)

section \<open>Soundness of the search\<close>

definition solution :: "creator \<Rightarrow> assignment \<Rightarrow> bool" where
  "solution s r \<longleftrightarrow>
     puzzle_assignment s r \<and> assignment_complete s r \<and> consistent s r = Inr True"

lemma solution_crossword:
  "crossword s' = crossword s \<Longrightarrow> solution s' r = solution s r"
  by (simp add: solution_def puzzle_assignment_crossword [of s' s]
      assignment_complete_crossword [of s' s] consistent_crossword [of s' s])

lemma backtrack_sound:
  "\<forall>r s2 a2. puzzle_assignment s a \<and> consistent s a = Inr True \<and>
      backtrack s a = Inr (Some r, s2, a2) \<longrightarrow> solution s r"
  "map_of a' var = None \<longrightarrow>
     (\<forall>r s2 a2. puzzle_assignment s' a' \<and> var \<in> set (variables (crossword s')) \<and>
        try_values s' a' var vals = Inr (Some r, s2, a2) \<longrightarrow> solution s' r)"
proof (induction s a and s' a' var vals rule: backtrack_induct)
  case (backtrack s a)
  let ?s1 = "s\<lparr>backtrack_calls := Suc (backtrack_calls s)\<rparr>"
  have c1: "crossword ?s1 = crossword s" by simp
  show ?case
  proof (intro allI impI)
    fix r s2 a2
    assume h: "puzzle_assignment s a \<and> consistent s a = Inr True \<and>
      backtrack s a = Inr (Some r, s2, a2)"
    show "solution s r"
    proof (cases "assignment_complete s a")
      case True
      with h have "r = a"
        by (simp add: backtrack.simps assignment_complete_def Let_def)
      with h True show ?thesis by (simp add: solution_def)
    next
      case False
      then have "\<not> assignment_complete ?s1 a"
        by (simp add: assignment_complete_def)
      with h obtain var vals where
        sel: "select_unassigned_variable ?s1 a = Inr var" and
        ord: "order_domain_values ?s1 var a = Inr vals" and
        tv: "try_values ?s1 a var vals = Inr (Some r, s2, a2)"
        by (auto simp: backtrack.simps Let_def split: sum.splits)
      have "puzzle_assignment ?s1 a"
        using h by (simp add: puzzle_assignment_def)
      moreover have "var \<in> set (variables (crossword ?s1))"
        using select_unassigned_variable_in [OF sel] by simp
      ultimately have "solution ?s1 r"
        using backtrack.IH [OF False sel ord, rule_format, of r s2 a2] tv by simp
      then show ?thesis
        by (simp add: solution_crossword [OF c1])
    qed
  qed
next
  case (Nil s a var)
  show ?case by (simp add: try_values.simps)
next
  case (Cons s a var val rest)
  let ?a1 = "AList.update var val a"
  show ?case
  proof (intro allI impI)
    fix r s2 a2
    assume h: "puzzle_assignment s a \<and> var \<in> set (variables (crossword s)) \<and>
      try_values s a var (val # rest) = Inr (Some r, s2, a2)"
    then have inv1: "puzzle_assignment s ?a1"
      by (simp add: puzzle_assignment_update)
    from h Cons.hyps obtain ok where ok: "consistent s ?a1 = Inr ok"
      by (auto simp: try_values_Cons split: sum.splits)
    show "solution s r"
    proof (cases ok)
      case False
      with ok have okF: "consistent s ?a1 = Inr False" by simp
      with h Cons.hyps have "try_values s a var rest = Inr (Some r, s2, a2)"
        by (simp add: try_values_Cons)
      with Cons.IH(3) [OF okF, rule_format, of r s2 a2] h show ?thesis by simp
    next
      case True
      with ok have ok': "consistent s ?a1 = Inr True" by simp
      from h Cons.hyps ok' obtain res sb ab where
        bt: "backtrack s ?a1 = Inr (res, sb, ab)"
        by (auto simp: try_values_Cons split: sum.splits)
      show ?thesis
      proof (cases res)
        case (Some r')
        with h Cons.hyps ok' bt have "r' = r"
          by (simp add: try_values_Cons)
        with Cons.IH(1) [OF ok', rule_format, of r sb ab] inv1 ok' bt Some show ?thesis
          by simp
      next
        case None
        with bt backtrack_None [of s ?a1 sb ab] have
          ab: "ab = ?a1" and c: "crossword sb = crossword s" by simp_all
        from bt None ab have bt': "backtrack s ?a1 = Inr (None, sb, ?a1)" by simp
        from h Cons.hyps ok' bt' have tv: "try_values sb a var rest = Inr (Some r, s2, a2)"
          by (simp add: try_values_Cons)
        have "puzzle_assignment sb a \<and> var \<in> set (variables (crossword sb))"
          using h c by (simp add: puzzle_assignment_def)
        with Cons.IH(2) [OF ok' bt', rule_format, of r s2 a2] tv have "solution sb r" by simp
        then show ?thesis by (simp add: solution_crossword [OF c])
      qed
    qed
  qed
qed

lemmas solve_defs =
  solve_def enforce_node_consistency_eq ac3_def ac3_loop.simps revise_def
  backtrack.simps try_values.simps Let_def

lemma crossing_solved:
  "solve (init crossing) =
   Some (Inr (Some [(across3, ''cat''), (down3, ''car'')],
     \<lparr>crossword = crossing,
      domains = [(across3, [''cat'', ''car'', ''dog'']), (down3, [''cat'', ''car'', ''dog''])],
      backtrack_calls = 3\<rparr>))"
  by (simp add: solve_defs search_defs example_defs)


lemma solution_covers:
  assumes "solution s r"
  shows "distinct (map fst r)" and "fst ` set r = set (variables (crossword s))"
proof -
  from assms have d: "distinct (variables (crossword s))" "distinct (map fst r)"
    and sub: "fst ` set r \<subseteq> set (variables (crossword s))"
    and len: "length r = length (variables (crossword s))"
    by (simp_all add: solution_def puzzle_assignment_def assignment_complete_def)
  show "distinct (map fst r)" by (rule d(2))
  have "card (fst ` set r) = length r"
    using distinct_card [OF d(2)] by simp
  moreover have "card (set (variables (crossword s))) = length (variables (crossword s))"
    using d(1) by (rule distinct_card)
  ultimately have "card (fst ` set r) = card (set (variables (crossword s)))"
    using len by simp
  with sub show "fst ` set r = set (variables (crossword s))"
    by (intro card_subset_eq) simp_all
qed

lemma solve_solution:
  assumes "distinct (variables (crossword s))" and "solve s = Some (Inr (Some r, s'))"
  shows "solution s r" and "crossword s' = crossword s"
proof -
  from assms(2) obtain s1 ok s2 a where
    s1: "enforce_node_consistency s = Inr s1" and
    ac: "ac3 s1 None = Some (Inr (ok, s2))" and
    bt: "backtrack s2 [] = Inr (Some r, s', a)"
    by (auto simp: solve_def split: sum.splits option.splits)
  from s1 have c1: "crossword s1 = crossword s"
    by (auto simp: enforce_node_consistency_eq)
  from ac3_frame [OF ac] c1 have c2: "crossword s2 = crossword s" by simp
  have "puzzle_assignment s2 []"
    using assms(1) c2 by (simp add: puzzle_assignment_def)
  moreover have "consistent s2 [] = Inr True"
    by (simp add: consistent_def)
  ultimately have "solution s2 r"
    using backtrack_sound(1) [rule_format, of s2 "[]" r s' a] bt by simp
  then show "solution s r"
    by (simp add: solution_crossword [OF c2])
  from backtrack_Some [OF bt] c2 show "crossword s' = crossword s" by simp
qed

section \<open>Claims about the assignment that \<open>solve\<close> returns\<close>

text \<open>
  C1: when \<^verbatim>\<open>solve\<close> returns an assignment (the variables of the puzzle being a set),
  the assignment has every variable of the puzzle as a key, each once, and the consistency
  checker accepts it: the assigned words are pairwise distinct, every word has the length
  of its variable, and for every two assigned variables with an overlap \<open>(i, j)\<close> the words
  agree at these offsets.
\<close>

theorem solve_returns_consistent_assignment:
  assumes "distinct (variables (crossword s))" and "solve s = Some (Inr (Some r, s'))"
  shows "distinct (map fst r) \<and> fst ` set r = set (variables (crossword s)) \<and>
    consistent s' r = Inr True \<and>
    distinct (map snd r) \<and>
    (\<forall>(var, word)\<in>set r. length word = var_length var) \<and>
    (\<forall>(var1, word1)\<in>set r. \<forall>(var2, word2)\<in>set r. \<forall>i j.
        var1 \<noteq> var2 \<and> overlaps (crossword s) (var1, var2) = Some (Some (i, j)) \<longrightarrow>
        i < length word1 \<and> j < length word2 \<and> word1 ! i = word2 ! j)"
proof -
  note sol = solve_solution [OF assms]
  from sol(1) have ok: "consistent s r = Inr True"
    by (simp add: solution_def)
  have "consistent s' r = Inr True"
    using ok by (simp add: consistent_crossword [OF sol(2)])
  moreover have "\<forall>(var1, word1)\<in>set r. \<forall>(var2, word2)\<in>set r. \<forall>i j.
        var1 \<noteq> var2 \<and> overlaps (crossword s) (var1, var2) = Some (Some (i, j)) \<longrightarrow>
        i < length word1 \<and> j < length word2 \<and> word1 ! i = word2 ! j"
    using consistent_True(3) [OF ok] by (fastforce simp: agree_def)
  moreover have "\<forall>(var, word)\<in>set r. length word = var_length var"
    using consistent_True(2) [OF ok] by auto
  ultimately show ?thesis
    using solution_covers [OF sol(1)] consistent_True(1) [OF ok] by simp
qed

theorem solve_returns_consistent_assignment_witness:
  "distinct (variables (crossword (init crossing))) \<and>
   (\<exists>s'. solve (init crossing) = Some (Inr (Some [(across3, ''cat''), (down3, ''car'')], s')) \<and>
      consistent s' [(across3, ''cat''), (down3, ''car'')] = Inr True) \<and>
   fst ` set [(across3, ''cat''), (down3, ''car'')] = set (variables (crossword (init crossing)))"
proof -
  have d: "distinct (variables (crossword (init crossing)))"
    by (simp add: example_defs)
  note inst = solve_returns_consistent_assignment [OF d crossing_solved]
  from inst have "fst ` set [(across3, ''cat''), (down3, ''car'')] =
      set (variables (crossword (init crossing)))"
    by (rule conjunct1 [OF conjunct2])
  moreover from inst have "consistent
     \<lparr>crossword = crossing,
      domains = [(across3, [''cat'', ''car'', ''dog'']), (down3, [''cat'', ''car'', ''dog''])],
      backtrack_calls = 3\<rparr> [(across3, ''cat''), (down3, ''car'')] = Inr True"
    by (rule conjunct1 [OF conjunct2 [OF conjunct2]])
  ultimately show ?thesis
    using d crossing_solved by blast
qed

section \<open>The search after a failed propagation\<close>

lemma revise_keys:
  assumes "revise s x y = Inr (revised, s')"
  shows "map_of (domains s') v = None \<longleftrightarrow> map_of (domains s) v = None"
proof -
  from revise_cases [OF assms] consider "s' = s"
    | dx dx' where "map_of (domains s) x = Some dx" "s' = s\<lparr>domains := AList.update x dx' (domains s)\<rparr>"
    by blast
  then show ?thesis
  proof cases
    case 1
    then show ?thesis by simp
  next
    case 2
    then show ?thesis by (cases "v = x") (simp_all add: update_conv')
  qed
qed

lemma arcs_from_fst: "arcs_from s v1 vs = Inr q \<Longrightarrow> \<forall>p\<in>set q. fst p = v1"
  by (induction vs arbitrary: q) (fastforce split: sum.splits if_splits)+

lemma all_arcs_fst: "all_arcs s vs = Inr q \<Longrightarrow> fst ` set q \<subseteq> set vs"
proof (induction vs arbitrary: q)
  case Nil
  then show ?case by simp
next
  case (Cons v vs)
  from Cons.prems obtain q1 q2 where
    q1: "arcs_from s v (variables (crossword s)) = Inr q1" and
    q2: "all_arcs s vs = Inr q2" and q: "q = q1 @ q2"
    by (auto split: sum.splits)
  from arcs_from_fst [OF q1] Cons.IH [OF q2] q show ?case by auto
qed

lemma neighbors_subset: "set (neighbors c x) \<subseteq> set (variables c)"
  by (auto simp: neighbors_def)

lemma ac3_failure_empties:
  assumes "ac3 s None = Some (Inr (False, s'))"
  shows "\<exists>x\<in>set (variables (crossword s)). map_of (domains s') x = Some []"
    and "map_of (domains s') v = None \<longleftrightarrow> map_of (domains s) v = None"
proof -
  let ?I = "\<lambda>t (q :: (variable \<times> variable) list). crossword t = crossword s \<and> fst ` set q \<subseteq> set (variables (crossword s)) \<and>
     (\<forall>v. map_of (domains t) v = None \<longleftrightarrow> map_of (domains s) v = None)"
  from assms obtain q where q: "all_arcs s (variables (crossword s)) = Inr q"
    and loop: "ac3_loop s q = Some (Inr (False, s'))"
    by (auto simp: ac3_def split: sum.splits)
  have "if False then ?I s' []
    else (\<exists>s0 x y rest. ?I s0 ((x, y) # rest) \<and> revise s0 x y = Inr (True, s') \<and>
            map_of (domains s') x = Some [])"
  proof (rule ac3_loop_invariant [OF loop, where I = ?I])
    show "?I s q" using all_arcs_fst [OF q] by simp
  next
    fix t x y rest revised t1
    assume I: "?I t ((x, y) # rest)" and rev: "revise t x y = Inr (revised, t1)"
    have c: "crossword t1 = crossword s"
      using revise_frame(1) [OF rev] I by simp
    have "set (neighbors (crossword t1) x) \<subseteq> set (variables (crossword s))"
      unfolding c by (rule neighbors_subset)
    with I c revise_keys [OF rev]
    show "?I t1 (if revised
            then rest @ map (\<lambda>k. (k, x)) (filter (\<lambda>k. k \<noteq> y) (neighbors (crossword t1) x))
            else rest)"
      by auto
  qed
  then obtain s0 x y rest where I: "?I s0 ((x, y) # rest)"
    and rev: "revise s0 x y = Inr (True, s')" and e: "map_of (domains s') x = Some []"
    by auto
  from I e show "\<exists>x\<in>set (variables (crossword s)). map_of (domains s') x = Some []"
    by auto
  from I revise_keys [OF rev] show "map_of (domains s') v = None \<longleftrightarrow> map_of (domains s) v = None"
    by simp
qed

lemma backtrack_empty_domain:
  assumes x: "x \<in> set (variables (crossword s))" "map_of (domains s) x = Some []"
    and keys: "\<forall>v\<in>set (variables (crossword s)). map_of (domains s) v \<noteq> None"
  shows "backtrack s [] = Inr (None, s\<lparr>backtrack_calls := Suc (backtrack_calls s)\<rparr>, [])"
proof -
  let ?s1 = "s\<lparr>backtrack_calls := Suc (backtrack_calls s)\<rparr>"
  have inc: "\<not> assignment_complete ?s1 []"
    using x(1) by (auto simp: assignment_complete_def)
  have "\<exists>u\<in>set (variables (crossword ?s1)). map_of ([] :: assignment) u = None"
    using x(1) by auto
  moreover have "\<forall>u\<in>set (variables (crossword ?s1)).
      map_of ([] :: assignment) u = None \<longrightarrow> map_of (domains ?s1) u \<noteq> None"
    using keys by simp
  ultimately obtain v where sel: "select_unassigned_variable ?s1 [] = Inr v"
    using select_unassigned_variable_total [of ?s1 "[]"] by blast
  from select_unassigned_variable_least [OF sel] obtain dv where
    dv: "map_of (domains ?s1) v = Some dv" and
    least: "\<forall>u du. u \<in> set (variables (crossword ?s1)) \<and> map_of ([] :: assignment) u = None \<and>
        map_of (domains ?s1) u = Some du \<longrightarrow> length dv \<le> length du \<and>
        (length du = length dv \<longrightarrow>
           length (neighbors (crossword ?s1) u) \<le> length (neighbors (crossword ?s1) v))"
    by blast
  from least [rule_format, of x "[]"] x have "dv = []" by simp
  with dv have ord: "order_domain_values ?s1 v [] = Inr []"
    by (simp add: order_domain_values_def domain_of_def)
  from inc sel ord show ?thesis
    by (simp add: backtrack.simps try_values.simps Let_def)
qed


definition mismatch :: crossword where
  "mismatch = \<lparr>variables = [across3, down2], words = [''cat'', ''do''],
     overlaps = map_of [((across3, down2), Some (0, 0)), ((down2, across3), Some (0, 0))]\<rparr>"

definition mismatch_filtered :: creator where
  "mismatch_filtered = \<lparr>crossword = mismatch,
     domains = [(across3, [''cat'']), (down2, [''do''])], backtrack_calls = 0\<rparr>"

definition mismatch_failed :: creator where
  "mismatch_failed = \<lparr>crossword = mismatch,
     domains = [(across3, []), (down2, [''do''])], backtrack_calls = 0\<rparr>"

lemmas mismatch_defs = mismatch_def mismatch_filtered_def mismatch_failed_def

lemma mismatch_enforce: "enforce_node_consistency (init mismatch) = Inr mismatch_filtered"
  by (simp add: enforce_node_consistency_eq mismatch_defs example_defs)

lemma mismatch_ac3: "ac3 mismatch_filtered None = Some (Inr (False, mismatch_failed))"
  by (simp add: ac3_def ac3_loop.simps revise_def set_remove_def search_defs mismatch_defs
      example_defs)

section \<open>Claims about \<open>solve\<close> after a failed propagation\<close>

text \<open>
  C2, as stated, does not hold: \<^verbatim>\<open>solve\<close> discards what \<^verbatim>\<open>ac3\<close> returns and calls
  \<^verbatim>\<open>backtrack\<close> in every case. On the puzzle \<open>mismatch\<close> the propagation empties a
  domain and reports failure, and \<^verbatim>\<open>backtrack\<close> is entered all the same.
\<close>

theorem solve_enters_backtrack_counterexample:
  "enforce_node_consistency (init mismatch) = Inr mismatch_filtered \<and>
   ac3 mismatch_filtered None = Some (Inr (False, mismatch_failed)) \<and>
   solve (init mismatch) = Some (Inr (None, mismatch_failed\<lparr>backtrack_calls := 1\<rparr>)) \<and>
   backtrack_calls (init mismatch) = 0"
  by (simp add: solve_def mismatch_enforce mismatch_ac3)
    (simp add: backtrack.simps try_values.simps Let_def search_defs mismatch_defs example_defs)

text \<open>
  C2, amended: when the propagation reports failure (every variable having a domain),
  \<^verbatim>\<open>solve\<close> still enters \<^verbatim>\<open>backtrack\<close>, once: the variable selected first has an
  empty domain, so no value is tried and the search returns the no-solution signal at once,
  which is what \<^verbatim>\<open>solve\<close> returns.
\<close>

theorem solve_after_failed_ac3:
  assumes "\<forall>v\<in>set (variables (crossword s)). map_of (domains s) v \<noteq> None"
    and "enforce_node_consistency s = Inr s1"
    and "ac3 s1 None = Some (Inr (False, s2))"
  shows "backtrack s2 [] = Inr (None, s2\<lparr>backtrack_calls := Suc (backtrack_calls s)\<rparr>, []) \<and>
    solve s = Some (Inr (None, s2\<lparr>backtrack_calls := Suc (backtrack_calls s)\<rparr>))"
proof -
  from assms(2) have s1: "crossword s1 = crossword s" "backtrack_calls s1 = backtrack_calls s"
    and d1: "domains s1 = map (\<lambda>(var, ws). (var, filter (\<lambda>word. length word = var_length var) ws)) (domains s)"
    by (auto simp: enforce_node_consistency_eq)
  from ac3_frame [OF assms(3)] s1 have
    s2: "crossword s2 = crossword s" "backtrack_calls s2 = backtrack_calls s"
    by simp_all
  have k1: "map_of (domains s1) v = None \<longleftrightarrow> map_of (domains s) v = None" for v
    unfolding d1 by (simp add: map_of_enforced)
  from ac3_failure_empties(1) [OF assms(3)] obtain x where
    x: "x \<in> set (variables (crossword s2))" "map_of (domains s2) x = Some []"
    using s1 s2 by auto
  have keys: "\<forall>v\<in>set (variables (crossword s2)). map_of (domains s2) v \<noteq> None"
    using assms(1) ac3_failure_empties(2) [OF assms(3)] k1 s2 by simp
  have bt: "backtrack s2 [] = Inr (None, s2\<lparr>backtrack_calls := Suc (backtrack_calls s)\<rparr>, [])"
    using backtrack_empty_domain [OF x keys] s2 by simp
  with assms(2,3) show ?thesis
    by (simp add: solve_def)
qed

theorem solve_after_failed_ac3_witness:
  "map_of (domains (init mismatch)) across3 \<noteq> None \<and>
   map_of (domains (init mismatch)) down2 \<noteq> None \<and>
   enforce_node_consistency (init mismatch) = Inr mismatch_filtered \<and>
   ac3 mismatch_filtered None = Some (Inr (False, mismatch_failed)) \<and>
   backtrack mismatch_failed [] =
     Inr (None, mismatch_failed\<lparr>backtrack_calls := Suc (backtrack_calls (init mismatch))\<rparr>, [])"
proof -
  have keys: "\<forall>v\<in>set (variables (crossword (init mismatch))).
      map_of (domains (init mismatch)) v \<noteq> None"
    by (simp add: mismatch_defs example_defs)
  have "map_of (domains (init mismatch)) across3 \<noteq> None"
    "map_of (domains (init mismatch)) down2 \<noteq> None"
    by (simp_all add: mismatch_defs example_defs)
  with solve_after_failed_ac3 [OF keys mismatch_enforce mismatch_ac3]
    mismatch_enforce mismatch_ac3
  show ?thesis by simp
qed

definition unfillable :: crossword where
  "unfillable = crossing\<lparr>words := [''ab'']\<rparr>"

definition unfillable_filtered :: creator where
  "unfillable_filtered = \<lparr>crossword = unfillable,
     domains = [(across3, []), (down3, [])], backtrack_calls = 0\<rparr>"

section \<open>Claims about the result of \<open>ac3\<close>\<close>

text \<open>
  C3: \<^verbatim>\<open>ac3\<close> returning \<open>True\<close> does not give that every domain is non-empty. The
  loop looks at the size of a domain only after a revision that changed it, so a domain
  that is empty before the pass, and so never revised, goes unnoticed. On the puzzle
  \<open>unfillable\<close> (two crossing slots of length 3, the only word of length 2) node
  consistency empties both domains, and \<^verbatim>\<open>ac3\<close> with the default arcs returns \<open>True\<close>
  and leaves both domains empty.
\<close>

theorem ac3_success_with_empty_domain:
  "enforce_node_consistency (init unfillable) = Inr unfillable_filtered \<and>
   ac3 unfillable_filtered None = Some (Inr (True, unfillable_filtered)) \<and>
   map_of (domains unfillable_filtered) across3 = Some []"
  by (simp add: enforce_node_consistency_eq ac3_def ac3_loop.simps revise_def set_remove_def
      search_defs unfillable_def unfillable_filtered_def example_defs)

section \<open>Well-formed puzzles and node-consistent states\<close>

text \<open>
  A well-formed Puzzle Model: the variables are a set, the overlap table has an entry for
  every ordered pair of distinct variables, and the offsets of an overlap lie within the
  two slots.
\<close>

definition well_formed :: "crossword \<Rightarrow> bool" where
  "well_formed c \<longleftrightarrow>
     distinct (variables c) \<and>
     (\<forall>v1\<in>set (variables c). \<forall>v2\<in>set (variables c).
        v1 \<noteq> v2 \<longrightarrow> overlaps c (v1, v2) \<noteq> None) \<and>
     (\<forall>v1\<in>set (variables c). \<forall>v2\<in>set (variables c). \<forall>i j.
        overlaps c (v1, v2) = Some (Some (i, j)) \<longrightarrow> i < var_length v1 \<and> j < var_length v2)"

lemma well_formed_entry:
  "well_formed c \<Longrightarrow> v1 \<in> set (variables c) \<Longrightarrow> v2 \<in> set (variables c) \<Longrightarrow>
   v1 \<noteq> v2 \<Longrightarrow> \<exists>ov. overlaps c (v1, v2) = Some ov"
  unfolding well_formed_def by blast

lemma well_formed_bounds:
  "well_formed c \<Longrightarrow> v1 \<in> set (variables c) \<Longrightarrow> v2 \<in> set (variables c) \<Longrightarrow>
   overlaps c (v1, v2) = Some (Some (i, j)) \<Longrightarrow> i < var_length v1 \<and> j < var_length v2"
  unfolding well_formed_def by blast

lemma well_formed_distinct: "well_formed c \<Longrightarrow> distinct (variables c)"
  by (simp add: well_formed_def)

definition node_consistent :: "creator \<Rightarrow> bool" where
  "node_consistent s \<longleftrightarrow>
     well_formed (crossword s) \<and>
     (\<forall>v\<in>set (variables (crossword s)).
        \<exists>ws. map_of (domains s) v = Some ws \<and> (\<forall>w\<in>set ws. length w = var_length v))"

lemma node_consistent_domain:
  "node_consistent s \<Longrightarrow> v \<in> set (variables (crossword s)) \<Longrightarrow>
   \<exists>ws. map_of (domains s) v = Some ws \<and> (\<forall>w\<in>set ws. length w = var_length v)"
  by (simp add: node_consistent_def)

lemma map_of_init:
  "v \<in> set (variables c) \<Longrightarrow> map_of (domains (init c)) v = Some (words c)"
  by (simp add: init_def map_of_map_restrict)

lemma enforce_node_consistent:
  assumes "well_formed (crossword s)"
    and "\<forall>v\<in>set (variables (crossword s)). map_of (domains s) v \<noteq> None"
    and "enforce_node_consistency s = Inr s1"
  shows "node_consistent s1"
proof -
  from assms(3) have c: "crossword s1 = crossword s"
    and d: "\<And>v. map_of (domains s1) v =
      map_option (filter (\<lambda>word. length word = var_length v)) (map_of (domains s) v)"
    by (auto simp: enforce_node_consistency_eq map_of_enforced)
  show ?thesis
    unfolding node_consistent_def c
  proof (intro conjI ballI)
    show "well_formed (crossword s)" by (rule assms(1))
  next
    fix v assume "v \<in> set (variables (crossword s))"
    with assms(2) obtain ws where "map_of (domains s) v = Some ws" by auto
    then show "\<exists>ws. map_of (domains s1) v = Some ws \<and> (\<forall>w\<in>set ws. length w = var_length v)"
      by (simp add: d)
  qed
qed

text \<open>In a node-consistent state \<open>revise\<close> raises nothing and keeps the state node consistent.\<close>

definition supported :: "nat \<Rightarrow> nat \<Rightarrow> string list \<Rightarrow> string \<Rightarrow> bool" where
  "supported i j dy word_x \<longleftrightarrow> (\<exists>word_y\<in>set dy. word_x ! i = word_y ! j)"

lemma revise_node_consistent:
  assumes nc: "node_consistent s"
    and x: "x \<in> set (variables (crossword s))" and y: "y \<in> set (variables (crossword s))"
    and ne: "x \<noteq> y"
  shows "\<exists>revised s1. revise s x y = Inr (revised, s1) \<and> node_consistent s1 \<and>
    crossword s1 = crossword s \<and>
    (\<forall>v ws. map_of (domains s) v = Some ws \<longrightarrow>
       (\<exists>ws1. map_of (domains s1) v = Some ws1 \<and> set ws1 \<subseteq> set ws \<and>
          (\<forall>w\<in>set ws. w \<notin> set ws1 \<longrightarrow>
             v = x \<and> (\<exists>i j dy. overlaps (crossword s) (x, y) = Some (Some (i, j)) \<and>
                map_of (domains s) y = Some dy \<and> \<not> supported i j dy w))))"
proof -
  from nc have wf: "well_formed (crossword s)" by (simp add: node_consistent_def)
  from well_formed_entry [OF wf x y ne] obtain ov where
    ov: "overlaps (crossword s) (x, y) = Some ov" by blast
  show ?thesis
  proof (cases ov)
    case None
    with ov have "revise s x y = Inr (False, s)"
      by (simp add: revise_def overlap_of_def)
    with nc show ?thesis by auto
  next
    case (Some ij)
    obtain i j where ij: "ij = (i, j)" by (cases ij)
    with ov Some have o: "overlaps (crossword s) (x, y) = Some (Some (i, j))" by simp
    from well_formed_bounds [OF wf x y o] have bounds: "i < var_length x" "j < var_length y"
      by simp_all
    from node_consistent_domain [OF nc x] obtain dx where
      dx: "map_of (domains s) x = Some dx" "\<forall>w\<in>set dx. length w = var_length x" by blast
    from node_consistent_domain [OF nc y] obtain dy where
      dy: "map_of (domains s) y = Some dy" "\<forall>w\<in>set dy. length w = var_length y" by blast
    let ?dx' = "filter (\<lambda>w. \<exists>word_y\<in>set dy. w ! i = word_y ! j) dx"
    let ?s1 = "s\<lparr>domains := AList.update x ?dx' (domains s)\<rparr>"
    have rev: "revise s x y = Inr (\<exists>w\<in>set dx. \<not> (\<exists>word_y\<in>set dy. w ! i = word_y ! j), ?s1)"
      using o dx dy bounds by (intro revise_total) simp_all
    have m: "map_of (AList.update x ?dx' (domains s)) v =
        (if v = x then Some ?dx' else map_of (domains s) v)" for v
      by (simp add: update_conv')
    have "node_consistent ?s1"
      unfolding node_consistent_def
    proof (intro conjI ballI)
      show "well_formed (crossword ?s1)" using wf by simp
    next
      fix v assume v: "v \<in> set (variables (crossword ?s1))"
      show "\<exists>ws. map_of (domains ?s1) v = Some ws \<and> (\<forall>w\<in>set ws. length w = var_length v)"
      proof (cases "v = x")
        case True
        with dx show ?thesis by (simp add: m)
      next
        case False
        with node_consistent_domain [OF nc, of v] v show ?thesis by (simp add: m)
      qed
    qed
    moreover have "\<exists>ws1. map_of (domains ?s1) v = Some ws1 \<and> set ws1 \<subseteq> set ws \<and>
          (\<forall>w\<in>set ws. w \<notin> set ws1 \<longrightarrow>
             v = x \<and> (\<exists>i j dy. overlaps (crossword s) (x, y) = Some (Some (i, j)) \<and>
                map_of (domains s) y = Some dy \<and> \<not> supported i j dy w))"
      if "map_of (domains s) v = Some ws" for v ws
    proof (cases "v = x")
      case True
      with that dx have "ws = dx" by simp
      with True o dy show ?thesis
        by (auto simp: m supported_def)
    next
      case False
      with that show ?thesis by (simp add: m)
    qed
    ultimately show ?thesis
      using rev by auto
  qed
qed

section \<open>Fillings of a puzzle\<close>

text \<open>
  A filling gives every variable a word of its length, different variables different
  words, such that the words of overlapping variables agree at the overlap. It lies within
  a state when every variable's word is in the variable's domain. Neither notion depends
  on the order in which sets are iterated.
\<close>

definition fills :: "crossword \<Rightarrow> (variable \<Rightarrow> string) \<Rightarrow> bool" where
  "fills c \<sigma> \<longleftrightarrow>
     inj_on \<sigma> (set (variables c)) \<and>
     (\<forall>v\<in>set (variables c). length (\<sigma> v) = var_length v) \<and>
     (\<forall>v1\<in>set (variables c). \<forall>v2\<in>set (variables c). \<forall>i j.
        v1 \<noteq> v2 \<and> overlaps c (v1, v2) = Some (Some (i, j)) \<longrightarrow> \<sigma> v1 ! i = \<sigma> v2 ! j)"

definition within :: "creator \<Rightarrow> (variable \<Rightarrow> string) \<Rightarrow> bool" where
  "within s \<sigma> \<longleftrightarrow>
     (\<forall>v\<in>set (variables (crossword s)). \<exists>ws. map_of (domains s) v = Some ws \<and> \<sigma> v \<in> set ws)"

lemma fills_agree:
  "fills c \<sigma> \<Longrightarrow> v1 \<in> set (variables c) \<Longrightarrow> v2 \<in> set (variables c) \<Longrightarrow> v1 \<noteq> v2 \<Longrightarrow>
   overlaps c (v1, v2) = Some (Some (i, j)) \<Longrightarrow> \<sigma> v1 ! i = \<sigma> v2 ! j"
  unfolding fills_def by blast

lemma within_domain:
  "within s \<sigma> \<Longrightarrow> v \<in> set (variables (crossword s)) \<Longrightarrow>
   \<exists>ws. map_of (domains s) v = Some ws \<and> \<sigma> v \<in> set ws"
  by (simp add: within_def)

lemma revise_within:
  assumes nc: "node_consistent s"
    and x: "x \<in> set (variables (crossword s))" and y: "y \<in> set (variables (crossword s))"
    and ne: "x \<noteq> y"
    and rev: "revise s x y = Inr (revised, s1)"
    and f: "fills (crossword s) \<sigma>" and w: "within s \<sigma>"
  shows "within s1 \<sigma>"
proof -
  from revise_node_consistent [OF nc x y ne] rev have
    c: "crossword s1 = crossword s" and
    d: "\<forall>v ws. map_of (domains s) v = Some ws \<longrightarrow>
       (\<exists>ws1. map_of (domains s1) v = Some ws1 \<and> set ws1 \<subseteq> set ws \<and>
          (\<forall>w\<in>set ws. w \<notin> set ws1 \<longrightarrow>
             v = x \<and> (\<exists>i j dy. overlaps (crossword s) (x, y) = Some (Some (i, j)) \<and>
                map_of (domains s) y = Some dy \<and> \<not> supported i j dy w)))"
    by auto
  show ?thesis
    unfolding within_def c
  proof
    fix v assume v: "v \<in> set (variables (crossword s))"
    from within_domain [OF w v] obtain ws where ws: "map_of (domains s) v = Some ws" "\<sigma> v \<in> set ws"
      by blast
    from d ws(1) obtain ws1 where ws1: "map_of (domains s1) v = Some ws1" and
      removed: "\<forall>w\<in>set ws. w \<notin> set ws1 \<longrightarrow>
             v = x \<and> (\<exists>i j dy. overlaps (crossword s) (x, y) = Some (Some (i, j)) \<and>
                map_of (domains s) y = Some dy \<and> \<not> supported i j dy w)"
      by blast
    have "\<sigma> v \<in> set ws1"
    proof (rule ccontr)
      assume "\<sigma> v \<notin> set ws1"
      with removed ws(2) obtain i j dy where vx: "v = x"
        and o: "overlaps (crossword s) (x, y) = Some (Some (i, j))"
        and dy: "map_of (domains s) y = Some dy" and ns: "\<not> supported i j dy (\<sigma> v)"
        by blast
      from within_domain [OF w y] dy have "\<sigma> y \<in> set dy" by simp
      moreover from fills_agree [OF f x y ne o] have "\<sigma> x ! i = \<sigma> y ! j" .
      ultimately have "supported i j dy (\<sigma> x)"
        by (auto simp: supported_def)
      with ns vx show False by simp
    qed
    with ws1 show "\<exists>ws. map_of (domains s1) v = Some ws \<and> \<sigma> v \<in> set ws" by simp
  qed
qed

section \<open>The propagation pass on a node-consistent state\<close>

lemma ac3_loop_total:
  assumes "I s queue"
    and step: "\<And>t x y rest. I t ((x, y) # rest) \<Longrightarrow>
      \<exists>revised t1. revise t x y = Inr (revised, t1) \<and> map_of (domains t1) x \<noteq> None \<and>
        I t1 (if revised
              then rest @ map (\<lambda>k. (k, x)) (filter (\<lambda>k. k \<noteq> y) (neighbors (crossword t1) x))
              else rest)"
  shows "\<exists>ok s' queue'. ac3_loop s queue = Some (Inr (ok, s')) \<and> I s' queue'"
  using assms(1)
proof (induction "ac3_measure s queue" arbitrary: s queue rule: less_induct)
  case less
  show ?case
  proof (cases queue)
    case Nil
    with less.prems show ?thesis by (subst ac3_loop.simps) auto
  next
    case (Cons arc rest)
    obtain x y where arc: "arc = (x, y)" by (cases arc)
    let ?q = "\<lambda>t1. rest @ map (\<lambda>k. (k, x)) (filter (\<lambda>k. k \<noteq> y) (neighbors (crossword t1) x))"
    from step [OF less.prems [unfolded Cons arc]] obtain revised t1 where
      rev: "revise s x y = Inr (revised, t1)" and dom: "map_of (domains t1) x \<noteq> None" and
      I: "I t1 (if revised then ?q t1 else rest)"
      by blast
    from dom obtain dx where dx: "map_of (domains t1) x = Some dx" by auto
    show ?thesis
    proof (cases revised)
      case False
      with rev have rev': "revise s x y = Inr (False, t1)" by simp
      from False I have "I t1 rest" by simp
      from less.hyps [OF ac3_measure_unrevised [OF rev', of rest, folded arc Cons] this]
      obtain ok s' queue' where "ac3_loop t1 rest = Some (Inr (ok, s'))" "I s' queue'"
        by blast
      with Cons arc rev' show ?thesis
        by (subst ac3_loop.simps) auto
    next
      case True
      with rev have rev': "revise s x y = Inr (True, t1)" by simp
      from True I have I': "I t1 (?q t1)" by simp
      show ?thesis
      proof (cases "dx = []")
        case True
        with Cons arc rev' dx I' show ?thesis
          by (subst ac3_loop.simps) (auto simp: domain_of_def)
      next
        case False
        from less.hyps [OF ac3_measure_revised [OF rev', of rest, folded arc Cons] I']
        obtain ok s' queue' where "ac3_loop t1 (?q t1) = Some (Inr (ok, s'))" "I s' queue'"
          by blast
        with Cons arc rev' dx False show ?thesis
          by (subst ac3_loop.simps) (auto simp: domain_of_def)
      qed
    qed
  qed
qed


lemma arcs_from_total:
  assumes "well_formed (crossword s)" "v1 \<in> set (variables (crossword s))"
  shows "set vs \<subseteq> set (variables (crossword s)) \<Longrightarrow>
    \<exists>q. arcs_from s v1 vs = Inr q \<and> (\<forall>p\<in>set q. fst p = v1 \<and> snd p \<in> set vs \<and> fst p \<noteq> snd p)"
proof (induction vs)
  case Nil
  show ?case by simp
next
  case (Cons v2 vs)
  then obtain q where q: "arcs_from s v1 vs = Inr q"
    "\<forall>p\<in>set q. fst p = v1 \<and> snd p \<in> set vs \<and> fst p \<noteq> snd p"
    by auto
  show ?case
  proof (cases "v1 = v2")
    case True
    with q show ?thesis by auto
  next
    case False
    from Cons.prems have "v2 \<in> set (variables (crossword s))" by simp
    from well_formed_entry [OF assms this False] obtain ov where
      "overlaps (crossword s) (v1, v2) = Some ov" by blast
    with False q show ?thesis
      by (auto simp: overlap_of_def)
  qed
qed

lemma all_arcs_total:
  assumes "well_formed (crossword s)"
  shows "set vs \<subseteq> set (variables (crossword s)) \<Longrightarrow>
    \<exists>q. all_arcs s vs = Inr q \<and>
      (\<forall>p\<in>set q. fst p \<in> set (variables (crossword s)) \<and>
         snd p \<in> set (variables (crossword s)) \<and> fst p \<noteq> snd p)"
proof (induction vs)
  case Nil
  show ?case by simp
next
  case (Cons v vs)
  then obtain q2 where q2: "all_arcs s vs = Inr q2"
    "\<forall>p\<in>set q2. fst p \<in> set (variables (crossword s)) \<and>
         snd p \<in> set (variables (crossword s)) \<and> fst p \<noteq> snd p"
    by auto
  from Cons.prems have v: "v \<in> set (variables (crossword s))" by simp
  from arcs_from_total [OF assms v, of "variables (crossword s)"] obtain q1 where
    q1: "arcs_from s v (variables (crossword s)) = Inr q1"
    "\<forall>p\<in>set q1. fst p = v \<and> snd p \<in> set (variables (crossword s)) \<and> fst p \<noteq> snd p"
    by auto
  from q1 q2 v show ?case by auto
qed

definition narrows :: "creator \<Rightarrow> creator \<Rightarrow> bool" where
  "narrows s s' \<longleftrightarrow>
     crossword s' = crossword s \<and> backtrack_calls s' = backtrack_calls s \<and>
     (\<forall>\<sigma>. fills (crossword s) \<sigma> \<and> within s \<sigma> \<longrightarrow> within s' \<sigma>) \<and>
     (\<forall>v ws. map_of (domains s') v = Some ws \<longrightarrow>
        (\<exists>ws0. map_of (domains s) v = Some ws0 \<and> set ws \<subseteq> set ws0))"

lemma narrows_refl: "narrows s s"
  by (simp add: narrows_def)

lemma narrows_trans:
  assumes "narrows s t" "narrows t u"
  shows "narrows s u"
  unfolding narrows_def
proof (intro conjI allI impI)
  from assms show "crossword u = crossword s" "backtrack_calls u = backtrack_calls s"
    by (simp_all add: narrows_def)
next
  fix \<sigma> assume "fills (crossword s) \<sigma> \<and> within s \<sigma>"
  with assms(1) have "fills (crossword t) \<sigma> \<and> within t \<sigma>"
    by (simp add: narrows_def)
  with assms(2) show "within u \<sigma>"
    by (simp add: narrows_def)
next
  fix v ws assume "map_of (domains u) v = Some ws"
  with assms(2) obtain ws1 where "map_of (domains t) v = Some ws1" "set ws \<subseteq> set ws1"
    unfolding narrows_def by blast
  moreover with assms(1) obtain ws0 where "map_of (domains s) v = Some ws0" "set ws1 \<subseteq> set ws0"
    unfolding narrows_def by blast
  ultimately show "\<exists>ws0. map_of (domains s) v = Some ws0 \<and> set ws \<subseteq> set ws0"
    by auto
qed

lemma revise_shrinks:
  assumes "revise s x y = Inr (revised, s1)" and "map_of (domains s) v = Some ws"
  shows "\<exists>ws1. map_of (domains s1) v = Some ws1 \<and> set ws1 \<subseteq> set ws"
proof -
  from revise_cases [OF assms(1)] consider "s1 = s"
    | dx r where "map_of (domains s) x = Some dx"
        "s1 = s\<lparr>domains := AList.update x (filter (\<lambda>w. w \<notin> set r) dx) (domains s)\<rparr>"
    by blast
  then show ?thesis
  proof cases
    case 1
    with assms(2) show ?thesis by simp
  next
    case 2
    with assms(2) show ?thesis
      by (cases "v = x") (auto simp: update_conv')
  qed
qed

lemma revise_narrows:
  assumes nc: "node_consistent s"
    and x: "x \<in> set (variables (crossword s))" and y: "y \<in> set (variables (crossword s))"
    and ne: "x \<noteq> y"
    and rev: "revise s x y = Inr (revised, s1)"
  shows "narrows s s1"
  unfolding narrows_def
proof (intro conjI allI impI)
  show "crossword s1 = crossword s" "backtrack_calls s1 = backtrack_calls s"
    using revise_frame [OF rev] by simp_all
next
  fix \<sigma> assume "fills (crossword s) \<sigma> \<and> within s \<sigma>"
  then show "within s1 \<sigma>"
    using revise_within [OF nc x y ne rev] by simp
next
  fix v ws1 assume v: "map_of (domains s1) v = Some ws1"
  with revise_keys [OF rev, of v] obtain ws where ws: "map_of (domains s) v = Some ws"
    by auto
  from revise_shrinks [OF rev ws]
  obtain ws1' where "map_of (domains s1) v = Some ws1'" "set ws1' \<subseteq> set ws"
    by blast
  with v have "set ws1 \<subseteq> set ws"
    by simp
  with ws show "\<exists>ws0. map_of (domains s) v = Some ws0 \<and> set ws1 \<subseteq> set ws0" by simp
qed

lemma ac3_node_consistent:
  assumes nc: "node_consistent s"
  shows "\<exists>ok s'. ac3 s None = Some (Inr (ok, s')) \<and> node_consistent s' \<and> narrows s s'"
proof -
  let ?V = "set (variables (crossword s))"
  let ?I = "\<lambda>t (q :: (variable \<times> variable) list). node_consistent t \<and> narrows s t \<and>
     (\<forall>p\<in>set q. fst p \<in> ?V \<and> snd p \<in> ?V \<and> fst p \<noteq> snd p)"
  from nc have wf: "well_formed (crossword s)" by (simp add: node_consistent_def)
  from all_arcs_total [OF wf, of "variables (crossword s)"] obtain q where
    q: "all_arcs s (variables (crossword s)) = Inr q"
    "\<forall>p\<in>set q. fst p \<in> ?V \<and> snd p \<in> ?V \<and> fst p \<noteq> snd p"
    by auto
  have "\<exists>ok s' queue'. ac3_loop s q = Some (Inr (ok, s')) \<and> ?I s' queue'"
  proof (rule ac3_loop_total [where I = ?I])
    show "?I s q" using nc q(2) by (simp add: narrows_refl)
  next
    fix t x y rest
    assume I: "?I t ((x, y) # rest)"
    then have nct: "node_consistent t" and nar: "narrows s t"
      and c: "crossword t = crossword s" by (simp_all add: narrows_def)
    from I c have x: "x \<in> set (variables (crossword t))" and y: "y \<in> set (variables (crossword t))"
      and ne: "x \<noteq> y" by simp_all
    from revise_node_consistent [OF nct x y ne] obtain revised t1 where
      rev: "revise t x y = Inr (revised, t1)" and nc1: "node_consistent t1"
      and c1: "crossword t1 = crossword t" by blast
    from node_consistent_domain [OF nc1, of x] x c1 have dom: "map_of (domains t1) x \<noteq> None"
      by auto
    have nar1: "narrows s t1"
      using nar revise_narrows [OF nct x y ne rev] by (rule narrows_trans)
    have "set (neighbors (crossword t1) x) \<subseteq> ?V"
      unfolding c1 c by (rule neighbors_subset)
    moreover have "\<forall>k\<in>set (neighbors (crossword t1) x). k \<noteq> x"
      by (simp add: neighbors_def)
    ultimately have "?I t1 (if revised
        then rest @ map (\<lambda>k. (k, x)) (filter (\<lambda>k. k \<noteq> y) (neighbors (crossword t1) x))
        else rest)"
      using I nc1 nar1 x c by auto
    with rev dom show "\<exists>revised t1. revise t x y = Inr (revised, t1) \<and>
        map_of (domains t1) x \<noteq> None \<and>
        ?I t1 (if revised
              then rest @ map (\<lambda>k. (k, x)) (filter (\<lambda>k. k \<noteq> y) (neighbors (crossword t1) x))
              else rest)"
      by blast
  qed
  with q(1) show ?thesis
    by (auto simp: ac3_def)
qed

section \<open>The search raises nothing on a node-consistent state\<close>

lemma node_consistent_cong:
  "crossword s' = crossword s \<Longrightarrow> domains s' = domains s \<Longrightarrow>
   node_consistent s' = node_consistent s"
  by (simp add: node_consistent_def)

lemma within_cong:
  "crossword s' = crossword s \<Longrightarrow> domains s' = domains s \<Longrightarrow> within s' \<sigma> = within s \<sigma>"
  by (simp add: within_def)

lemma no_conflict_total:
  assumes wf: "well_formed (crossword s)" and v1: "var1 \<in> set (variables (crossword s))"
    and l1: "length word1 = var_length var1"
  shows "\<forall>p\<in>set a. fst p \<in> set (variables (crossword s)) \<and> length (snd p) = var_length (fst p) \<Longrightarrow>
    \<exists>b. no_conflict s var1 word1 a = Inr b"
proof (induction a)
  case Nil
  show ?case by auto
next
  case (Cons q a)
  obtain var2 word2 where q: "q = (var2, word2)" by (cases q)
  from Cons obtain b where b: "no_conflict s var1 word1 a = Inr b" by auto
  from Cons.prems q have v2: "var2 \<in> set (variables (crossword s))"
    and l2: "length word2 = var_length var2" by simp_all
  show ?case
  proof (cases "var1 = var2")
    case True
    with b q show ?thesis by simp
  next
    case False
    from well_formed_entry [OF wf v1 v2 False] obtain ov where
      ov: "overlaps (crossword s) (var1, var2) = Some ov" by blast
    show ?thesis
    proof (cases ov)
      case None
      with ov b q False show ?thesis by (simp add: overlap_of_def)
    next
      case (Some ij)
      obtain i j where ij: "ij = (i, j)" by (cases ij)
      with ov Some well_formed_bounds [OF wf v1 v2, of i j] l1 l2
      have "i < length word1" "j < length word2" by simp_all
      with ov Some ij b q False show ?thesis
        by (auto simp: overlap_of_def char_at_def)
    qed
  qed
qed

lemma no_conflicts_total:
  assumes wf: "well_formed (crossword s)"
    and a: "\<forall>p\<in>set a. fst p \<in> set (variables (crossword s)) \<and> length (snd p) = var_length (fst p)"
  shows "set b \<subseteq> set a \<Longrightarrow> \<exists>ok. no_conflicts s a b = Inr ok"
proof (induction b)
  case Nil
  show ?case by auto
next
  case (Cons q b)
  obtain var1 word1 where q: "q = (var1, word1)" by (cases q)
  with Cons.prems a have "var1 \<in> set (variables (crossword s))" "length word1 = var_length var1"
    by auto
  from no_conflict_total [OF wf this a] obtain ok1 where
    "no_conflict s var1 word1 a = Inr ok1" by blast
  moreover from Cons obtain ok2 where "no_conflicts s a b = Inr ok2" by auto
  ultimately show ?case using q by auto
qed

lemma consistent_total:
  assumes "well_formed (crossword s)" and "puzzle_assignment s a"
  shows "\<exists>ok. consistent s a = Inr ok"
proof (cases "list_all (\<lambda>(var, word). length word = var_length var) a")
  case False
  then show ?thesis by (auto simp: consistent_def)
next
  case True
  with assms(2) have "\<forall>p\<in>set a. fst p \<in> set (variables (crossword s)) \<and>
      length (snd p) = var_length (fst p)"
    by (auto simp: list_all_iff puzzle_assignment_def)
  from no_conflicts_total [OF assms(1) this, of a] show ?thesis
    by (auto simp: consistent_def)
qed

lemma count_disagreeing_total:
  "i < length word \<Longrightarrow> \<forall>w\<in>set ws. j < length w \<Longrightarrow> \<exists>n. count_disagreeing word i j ws = Inr n"
  by (induction ws) (auto simp: char_at_def)

lemma count_eliminated_values_total:
  assumes nc: "node_consistent s" and var: "var \<in> set (variables (crossword s))"
    and len: "length word = var_length var"
  shows "\<forall>n\<in>set ns. n \<in> set (variables (crossword s)) \<and> n \<noteq> var \<Longrightarrow>
    \<exists>k. count_eliminated_values s var a word ns = Inr k"
proof (induction ns)
  case Nil
  show ?case by simp
next
  case (Cons n ns)
  from nc have wf: "well_formed (crossword s)" by (simp add: node_consistent_def)
  from Cons obtain k where k: "count_eliminated_values s var a word ns = Inr k" by auto
  from Cons.prems have n: "n \<in> set (variables (crossword s))" "var \<noteq> n" by auto
  show ?case
  proof (cases "map_of a n = None")
    case False
    with k show ?thesis by auto
  next
    case True
    from well_formed_entry [OF wf var n] obtain ov where
      ov: "overlaps (crossword s) (var, n) = Some ov" by blast
    show ?thesis
    proof (cases ov)
      case None
      with ov k True show ?thesis by (simp add: overlap_of_def)
    next
      case (Some ij)
      obtain i j where ij: "ij = (i, j)" by (cases ij)
      from node_consistent_domain [OF nc n(1)] obtain nd where
        nd: "map_of (domains s) n = Some nd" "\<forall>w\<in>set nd. length w = var_length n" by blast
      from ov Some ij well_formed_bounds [OF wf var n(1), of i j] len nd(2)
      have "i < length word" "\<forall>w\<in>set nd. j < length w" by simp_all
      from count_disagreeing_total [OF this] obtain m where
        "count_disagreeing word i j nd = Inr m" by blast
      with ov Some ij nd(1) k True show ?thesis
        by (simp add: overlap_of_def domain_of_def)
    qed
  qed
qed

lemma map_err_total:
  "\<forall>x\<in>set xs. \<exists>y. f x = Inr y \<Longrightarrow> \<exists>ys. map_err f xs = Inr ys"
  by (induction xs) auto

lemma map_err_keyed:
  "map_err (\<lambda>x. case g x of Inl e \<Rightarrow> Inl e | Inr n \<Rightarrow> Inr (n, x)) xs = Inr ys \<Longrightarrow>
   map snd ys = xs"
  by (induction xs arbitrary: ys) (auto split: sum.splits)

lemma order_domain_values_set:
  assumes "order_domain_values s var a = Inr vals"
  shows "\<exists>ws. map_of (domains s) var = Some ws \<and> set vals = set ws"
proof -
  from assms obtain ws keyed where ws: "map_of (domains s) var = Some ws"
    and keyed: "map_err (\<lambda>word.
        case count_eliminated_values s var a word (neighbors (crossword s) var) of
          Inl e \<Rightarrow> Inl e | Inr n \<Rightarrow> Inr (n, word)) ws = Inr keyed"
    and vals: "vals = map snd (sort_key fst keyed)"
    by (auto simp: order_domain_values_def domain_of_Inr split: sum.splits)
  from map_err_keyed [OF keyed] have "snd ` set keyed = set ws" by (metis set_map)
  with vals ws show ?thesis by simp
qed

lemma order_domain_values_total:
  assumes nc: "node_consistent s" and var: "var \<in> set (variables (crossword s))"
  shows "\<exists>vals. order_domain_values s var a = Inr vals"
proof -
  from node_consistent_domain [OF nc var] obtain ws where
    ws: "map_of (domains s) var = Some ws" "\<forall>w\<in>set ws. length w = var_length var" by blast
  have ns: "\<forall>n\<in>set (neighbors (crossword s) var). n \<in> set (variables (crossword s)) \<and> n \<noteq> var"
    by (simp add: neighbors_def)
  have "\<forall>word\<in>set ws. \<exists>y.
      (case count_eliminated_values s var a word (neighbors (crossword s) var) of
          Inl e \<Rightarrow> Inl e | Inr n \<Rightarrow> Inr (n, word)) = Inr y"
  proof
    fix word assume "word \<in> set ws"
    with ws(2) have "length word = var_length var" by simp
    from count_eliminated_values_total [OF nc var this ns, of a]
    show "\<exists>y. (case count_eliminated_values s var a word (neighbors (crossword s) var) of
          Inl e \<Rightarrow> Inl e | Inr n \<Rightarrow> Inr (n, word)) = Inr y"
      by auto
  qed
  from map_err_total [OF this] ws(1) show ?thesis
    by (auto simp: order_domain_values_def domain_of_def)
qed

lemma node_consistent_calls:
  "node_consistent (s\<lparr>backtrack_calls := n\<rparr>) = node_consistent s"
  by (simp add: node_consistent_def)

lemma puzzle_assignment_calls:
  "puzzle_assignment (s\<lparr>backtrack_calls := n\<rparr>) a = puzzle_assignment s a"
  by (simp add: puzzle_assignment_def)

lemma node_consistent_select:
  assumes nc: "node_consistent s" and pa: "puzzle_assignment s a"
    and inc: "\<not> assignment_complete s a"
  shows "\<exists>var. select_unassigned_variable s a = Inr var"
proof (rule select_unassigned_variable_total)
  from inc pa show "\<exists>u\<in>set (variables (crossword s)). map_of a u = None"
    using incomplete_unassigned [of "variables (crossword s)" a]
    by (simp add: puzzle_assignment_def assignment_complete_def)
  from nc show "\<forall>u\<in>set (variables (crossword s)).
      map_of a u = None \<longrightarrow> map_of (domains s) u \<noteq> None"
    by (auto simp: node_consistent_def)
qed

lemma backtrack_total:
  "node_consistent s \<and> puzzle_assignment s a \<longrightarrow> (\<exists>res. backtrack s a = Inr res)"
  "map_of a' var = None \<longrightarrow>
     (node_consistent s' \<and> puzzle_assignment s' a' \<and> var \<in> set (variables (crossword s')) \<longrightarrow>
      (\<exists>res. try_values s' a' var vals = Inr res))"
proof (induction s a and s' a' var vals rule: backtrack_induct)
  case (backtrack s a)
  let ?s1 = "s\<lparr>backtrack_calls := Suc (backtrack_calls s)\<rparr>"
  show ?case
  proof
    assume h: "node_consistent s \<and> puzzle_assignment s a"
    then have nc1: "node_consistent ?s1" and pa1: "puzzle_assignment ?s1 a"
      by (simp_all add: node_consistent_calls puzzle_assignment_calls)
    show "\<exists>res. backtrack s a = Inr res"
    proof (cases "assignment_complete s a")
      case True
      then have "backtrack s a = Inr (Some a, ?s1, a)"
        by (simp add: backtrack.simps assignment_complete_def)
      then show ?thesis ..
    next
      case False
      then have c1: "\<not> assignment_complete ?s1 a"
        by (simp add: assignment_complete_def)
      from node_consistent_select [OF nc1 pa1 c1] obtain var where
        sel: "select_unassigned_variable ?s1 a = Inr var" by blast
      from select_unassigned_variable_in [OF sel] have
        var: "var \<in> set (variables (crossword ?s1))" by simp
      from order_domain_values_total [OF nc1 var] obtain vals where
        ord: "order_domain_values ?s1 var a = Inr vals" by blast
      from backtrack.IH [OF False sel ord] nc1 pa1 var obtain res where
        "try_values ?s1 a var vals = Inr res" by blast
      with c1 sel ord have "backtrack s a = Inr res"
        by (simp add: backtrack.simps)
      then show ?thesis ..
    qed
  qed
next
  case (Nil s a var)
  have "try_values s a var [] = Inr (None, s, a)" by (simp add: try_values.simps)
  then show ?case by blast
next
  case (Cons s a var val rest)
  let ?a1 = "AList.update var val a"
  show ?case
  proof
    assume h: "node_consistent s \<and> puzzle_assignment s a \<and> var \<in> set (variables (crossword s))"
    then have pa1: "puzzle_assignment s ?a1"
      by (simp add: puzzle_assignment_update)
    from h have wf: "well_formed (crossword s)" by (simp add: node_consistent_def)
    from consistent_total [OF wf pa1] obtain ok where ok: "consistent s ?a1 = Inr ok" by blast
    show "\<exists>res. try_values s a var (val # rest) = Inr res"
    proof (cases ok)
      case False
      with ok have okF: "consistent s ?a1 = Inr False" by simp
      from Cons.IH(3) [OF okF] h obtain res where "try_values s a var rest = Inr res" by blast
      with okF Cons.hyps have "try_values s a var (val # rest) = Inr res"
        by (simp add: try_values_Cons)
      then show ?thesis ..
    next
      case True
      with ok have okT: "consistent s ?a1 = Inr True" by simp
      from Cons.IH(1) [OF okT] h pa1 obtain r s2 a2 where
        bt: "backtrack s ?a1 = Inr (r, s2, a2)" by (metis prod_cases3)
      show ?thesis
      proof (cases r)
        case (Some r')
        with bt okT Cons.hyps have "try_values s a var (val # rest) = Inr (Some r', s2, r')"
          by (simp add: try_values_Cons)
        then show ?thesis ..
      next
        case None
        with bt backtrack_None [of s ?a1 s2 a2] have a2: "a2 = ?a1"
          and c: "crossword s2 = crossword s" and d: "domains s2 = domains s" by simp_all
        from bt None a2 have bt': "backtrack s ?a1 = Inr (None, s2, ?a1)" by simp
        have "node_consistent s2 \<and> puzzle_assignment s2 a \<and> var \<in> set (variables (crossword s2))"
          using h c d by (simp add: node_consistent_cong [OF c d] puzzle_assignment_def)
        with Cons.IH(2) [OF okT bt'] obtain res where "try_values s2 a var rest = Inr res"
          by blast
        with bt' okT Cons.hyps have "try_values s a var (val # rest) = Inr res"
          by (simp add: try_values_Cons)
        then show ?thesis ..
      qed
    qed
  qed
qed

end
